theory Spec2Isabelle
  imports Main "HOL-Library.Multiset"
begin

section \<open>SmartDataLoader: a shallow embedding of smartdataloader.py\<close>

text \<open>
  The loader keeps references to Python lists and pads them in place, so the model has an
  explicit store.  A token sequence (an inner \<open>List[int]\<close>) is a heap cell; a reference is
  the index of its cell; allocation appends a cell.  Outer collections
  (\<open>docs_tokens_encoded\<close>, the tuples that \<open>zip\<close> builds, the list \<open>collected\<close>) are never
  mutated after they are built, so they are plain lists of references.

  Token ids are Python integers (\<open>int\<close>); numpy's and torch's conversion to a fixed-width
  element type is not modelled.
\<close>

type_synonym ref = nat
type_synonym heap = "int list list"

datatype error = ValueError | IndexError | ZeroDivisionError

subsection \<open>The collaborators: Vocabulary, numpy, torch\<close>

text \<open>
  \<open>Vocabulary\<close> is imported, not defined, by the source; the loader reads and assigns its
  attribute \<open>docs_tokens_encoded\<close> and reads \<open>PAD_TOKEN\<close>.
\<close>

record Vocabulary =
  docs_tokens_encoded :: "ref list"
  PAD_TOKEN :: int

text \<open>
  \<open>copy.deepcopy\<close> of a vocabulary: every inner list is copied into a fresh cell; the memo
  makes two occurrences of one list object two occurrences of one copy.
\<close>

fun deepcopy_docs :: "(ref \<times> ref) list \<Rightarrow> heap \<Rightarrow> ref list \<Rightarrow> ref list \<times> heap" where
  "deepcopy_docs memo h [] = ([], h)"
| "deepcopy_docs memo h (r # rs) =
     (case map_of memo r of
        Some r' \<Rightarrow>
          (case deepcopy_docs memo h rs of (rs', h') \<Rightarrow> (r' # rs', h'))
      | None \<Rightarrow>
          (case deepcopy_docs ((r, length h) # memo) (h @ [h ! r]) rs of
             (rs', h') \<Rightarrow> (length h # rs', h')))"

definition deepcopy :: "Vocabulary \<Rightarrow> heap \<Rightarrow> Vocabulary \<times> heap" where
  "deepcopy v h =
     (case deepcopy_docs [] h (docs_tokens_encoded v) of
        (rs, h') \<Rightarrow> (v\<lparr>docs_tokens_encoded := rs\<rparr>, h'))"

text \<open>
  numpy's global generator is a parameter: \<open>np_seed s\<close> is the generator state that
  \<open>np.random.seed(s)\<close> installs (\<open>None\<close> when numpy rejects the seed with a ValueError), and
  \<open>np_shuffle g xs\<close> is the order \<open>np.random.shuffle\<close> leaves the list in, with the state
  it leaves behind.
\<close>

record 'g np_random =
  np_seed :: "int \<Rightarrow> 'g option"
  np_shuffle :: "'g \<Rightarrow> (ref \<times> ref) list \<Rightarrow> (ref \<times> ref) list \<times> 'g"

text \<open>
  \<open>np.array\<close> of a list of integer lists: a two-dimensional array when the rows have one
  length, the one-dimensional empty array for no rows, a ValueError for ragged rows.
  \<open>np.transpose\<close> reverses the axes; \<open>torch.tensor\<close> keeps shape and entries.
\<close>

record ndarray =
  shape :: "nat list"
  entries :: "int list list"

type_synonym Tensor = ndarray

definition np_array :: "int list list \<Rightarrow> error + ndarray" where
  "np_array docs =
     (case docs of
        [] \<Rightarrow> Inr \<lparr>shape = [0], entries = []\<rparr>
      | d # ds \<Rightarrow>
          if list_all (\<lambda>x. length x = length d) ds
          then Inr \<lparr>shape = [length docs, length d], entries = docs\<rparr>
          else Inl ValueError)"

definition np_transpose :: "ndarray \<Rightarrow> ndarray" where
  "np_transpose a =
     (case shape a of
        [n, m] \<Rightarrow>
          \<lparr>shape = [m, n], entries = map (\<lambda>j. map (\<lambda>row. row ! j) (entries a)) [0..<m]\<rparr>
      | _ \<Rightarrow> a)"

definition torch_tensor :: "ndarray \<Rightarrow> Tensor" where
  "torch_tensor a = a"

text \<open>
  Python's \<open>list.insert(i, x)\<close>: a negative index counts from the end, and an index outside
  the list is clamped to its ends.
\<close>

definition list_insert :: "int \<Rightarrow> 'a \<Rightarrow> 'a list \<Rightarrow> 'a list" where
  "list_insert i x xs =
     (let n = int (length xs);
          j = (if i < 0 then max 0 (i + n) else min i n)
      in take (nat j) xs @ [x] @ drop (nat j) xs)"

subsection \<open>The loader\<close>

record SmartDataLoader =
  input_vocab :: Vocabulary
  output_vocab :: Vocabulary
  batch_size :: int
  input_docs_tokens_encoded :: "ref list option"
  output_docs_tokens_encoded :: "ref list option"
  random_seed :: int
  n_sentences :: nat
  self_PAD_TOKEN :: int

text \<open>\<open>_shuffle_vocab_data\<close>: zip, seed, shuffle, unzip into the two vocabularies.\<close>

definition shuffle_vocab_data ::
  "'g np_random \<Rightarrow> 'g \<Rightarrow> int \<Rightarrow> Vocabulary \<Rightarrow> Vocabulary \<Rightarrow>
     error + (Vocabulary \<times> Vocabulary \<times> 'g)" where
  "shuffle_vocab_data np g seed iv ov =
     (let joined_docs_tokens_encoded = zip (docs_tokens_encoded iv) (docs_tokens_encoded ov)
      in case np_seed np seed of
           None \<Rightarrow> Inl ValueError
         | Some g1 \<Rightarrow>
             (case np_shuffle np g1 joined_docs_tokens_encoded of
                (shuffled, g2) \<Rightarrow>
                  if shuffled = [] then Inl ValueError
                  else Inr (iv\<lparr>docs_tokens_encoded := map fst shuffled\<rparr>,
                            ov\<lparr>docs_tokens_encoded := map snd shuffled\<rparr>, g2)))"

text \<open>
  \<open>__init__\<close>.  The world is the heap and numpy's global generator state.  The two
  vocabularies are deep-copied; override lists, when both are given, are assigned by
  reference; \<open>n_sentences\<close> and \<open>PAD_TOKEN\<close> are read from the caller's \<open>input_vocab\<close>.
\<close>

definition SmartDataLoader_init ::
  "'g np_random \<Rightarrow> heap \<times> 'g \<Rightarrow> Vocabulary \<Rightarrow> Vocabulary \<Rightarrow> int \<Rightarrow>
     ref list option \<Rightarrow> ref list option \<Rightarrow> int \<Rightarrow>
     error + (SmartDataLoader \<times> heap \<times> 'g)" where
  "SmartDataLoader_init np w in_vocab out_vocab bsize in_docs out_docs seed =
     (case deepcopy in_vocab (fst w) of
        (iv0, h1) \<Rightarrow>
     (case deepcopy out_vocab h1 of
        (ov0, h2) \<Rightarrow>
     (let iv = (if in_docs \<noteq> None \<and> out_docs \<noteq> None
                then iv0\<lparr>docs_tokens_encoded := the in_docs\<rparr> else iv0);
          ov = (if in_docs \<noteq> None \<and> out_docs \<noteq> None
                then ov0\<lparr>docs_tokens_encoded := the out_docs\<rparr> else ov0)
      in case shuffle_vocab_data np (snd w) seed iv ov of
           Inl e \<Rightarrow> Inl e
         | Inr (iv', ov', g') \<Rightarrow>
             Inr (\<lparr>input_vocab = iv', output_vocab = ov', batch_size = bsize,
                   input_docs_tokens_encoded = in_docs,
                   output_docs_tokens_encoded = out_docs,
                   random_seed = seed,
                   n_sentences = length (docs_tokens_encoded in_vocab),
                   self_PAD_TOKEN = PAD_TOKEN in_vocab\<rparr>, h2, g'))))"

text \<open>\<open>_build_tensor\<close>, first loop: the longest input and the longest output of the batch.\<close>

fun max_lens :: "heap \<Rightarrow> (ref \<times> ref) list \<Rightarrow> nat \<times> nat \<Rightarrow> nat \<times> nat" where
  "max_lens h [] acc = acc"
| "max_lens h (doc_pair # doc_pairs) (input_max_len, output_max_len) =
     max_lens h doc_pairs
       (max input_max_len (length (h ! fst doc_pair)),
        max output_max_len (length (h ! snd doc_pair)))"

text \<open>\<open>for _ in range(pads_needed): doc.insert(-1, self.PAD_TOKEN)\<close>, on the cell of \<open>doc\<close>.\<close>

fun insert_pads :: "nat \<Rightarrow> int \<Rightarrow> heap \<Rightarrow> ref \<Rightarrow> heap" where
  "insert_pads 0 pad h r = h"
| "insert_pads (Suc k) pad h r = insert_pads k pad (h[r := list_insert (- 1) pad (h ! r)]) r"

text \<open>
  \<open>_build_tensor\<close>, second loop.  Both lengths are read before either list is padded;
  \<open>input_docs\<close> and \<open>output_docs\<close> collect references.
\<close>

fun pad_docs ::
  "int \<Rightarrow> nat \<Rightarrow> nat \<Rightarrow> (ref \<times> ref) list \<Rightarrow> heap \<times> ref list \<times> ref list \<Rightarrow>
     heap \<times> ref list \<times> ref list" where
  "pad_docs pad input_max_len output_max_len [] st = st"
| "pad_docs pad input_max_len output_max_len (doc_pair # doc_pairs) (h, input_docs, output_docs) =
     (let input_len = length (h ! fst doc_pair);
          output_len = length (h ! snd doc_pair);
          h1 = (if input_len < input_max_len
                then insert_pads (input_max_len - input_len) pad h (fst doc_pair) else h);
          h2 = (if output_len < output_max_len
                then insert_pads (output_max_len - output_len) pad h1 (snd doc_pair) else h1)
      in pad_docs pad input_max_len output_max_len doc_pairs
           (h2, input_docs @ [fst doc_pair], output_docs @ [snd doc_pair]))"

text \<open>
  \<open>_build_tensor\<close>.  The arrays are built after the second loop, from the cells as the
  loop left them.  The heap is returned also when \<open>np.array\<close> raises.
\<close>

definition build_tensor ::
  "SmartDataLoader \<Rightarrow> heap \<Rightarrow> (ref \<times> ref) list \<Rightarrow> heap \<times> (error + Tensor \<times> Tensor)" where
  "build_tensor self h doc_pairs =
     (case max_lens h doc_pairs (0, 0) of
        (input_max_len, output_max_len) \<Rightarrow>
     (case pad_docs (self_PAD_TOKEN self) input_max_len output_max_len doc_pairs (h, [], []) of
        (h', input_docs, output_docs) \<Rightarrow>
          (h',
           case np_array (map (\<lambda>r. h' ! r) input_docs) of
             Inl e \<Rightarrow> Inl e
           | Inr a \<Rightarrow>
               (case np_array (map (\<lambda>r. h' ! r) output_docs) of
                  Inl e \<Rightarrow> Inl e
                | Inr b \<Rightarrow>
                    Inr (torch_tensor (np_transpose a), torch_tensor (np_transpose b))))))"

text \<open>
  \<open>__iter__\<close>, run to exhaustion: the batches yielded, the heap left behind, and the
  exception that ended the generator, if one did.  Batches yielded before an exception
  have reached the consumer.
\<close>

fun iter_loop ::
  "SmartDataLoader \<Rightarrow> nat list \<Rightarrow> int \<Rightarrow> (ref \<times> ref) list \<Rightarrow> heap \<Rightarrow> (Tensor \<times> Tensor) list \<Rightarrow>
     (Tensor \<times> Tensor) list \<times> heap \<times> error option" where
  "iter_loop self [] batch collected h yielded = (yielded, h, None)"
| "iter_loop self (sent_idx # rest) batch collected h yielded =
     (if sent_idx < length (docs_tokens_encoded (input_vocab self)) \<and>
         sent_idx < length (docs_tokens_encoded (output_vocab self))
      then
        (let batch' = batch + 1;
             collected' = collected @
               [(docs_tokens_encoded (input_vocab self) ! sent_idx,
                 docs_tokens_encoded (output_vocab self) ! sent_idx)]
         in if batch' = batch_size self
            then (case build_tensor self h collected' of
                    (h', Inl e) \<Rightarrow> (yielded, h', Some e)
                  | (h', Inr t) \<Rightarrow> iter_loop self rest 0 [] h' (yielded @ [t]))
            else iter_loop self rest batch' collected' h yielded)
      else (yielded, h, Some IndexError))"

definition SmartDataLoader_iter ::
  "SmartDataLoader \<Rightarrow> heap \<Rightarrow> (Tensor \<times> Tensor) list \<times> heap \<times> error option" where
  "SmartDataLoader_iter self h = iter_loop self [0..<n_sentences self] 0 [] h []"

text \<open>\<open>__len__\<close>: Python's floor division, ZeroDivisionError on a zero batch size.\<close>

definition SmartDataLoader_len :: "SmartDataLoader \<Rightarrow> error + int" where
  "SmartDataLoader_len self =
     (if batch_size self = 0 then Inl ZeroDivisionError
      else Inr (int (n_sentences self) div batch_size self))"


subsection \<open>Reading the loops\<close>

text \<open>
  The definitions below are not functions of the source: they name what its loops compute,
  and the lemmas that follow relate each one to the loop it describes.

  \<open>padded m pad xs\<close> is the list that the padding loop leaves in a cell holding \<open>xs\<close>
  when the batch maximum is \<open>m\<close>; \<open>pad_cell\<close> is that loop on the heap, \<open>pad_pair\<close> one
  iteration of the second loop of \<open>_build_tensor\<close>, and \<open>batch_tensor\<close> the transposed array
  of the padded rows.
\<close>

definition padded :: "nat \<Rightarrow> int \<Rightarrow> int list \<Rightarrow> int list" where
  "padded m pad xs = (list_insert (- 1) pad ^^ (m - length xs)) xs"

definition pad_cell :: "nat \<Rightarrow> int \<Rightarrow> heap \<Rightarrow> ref \<Rightarrow> heap" where
  "pad_cell m pad h r = h[r := padded m pad (h ! r)]"

definition pad_pair :: "nat \<Rightarrow> nat \<Rightarrow> int \<Rightarrow> heap \<Rightarrow> ref \<times> ref \<Rightarrow> heap" where
  "pad_pair mi mo pad h p = pad_cell mo pad (pad_cell mi pad h (fst p)) (snd p)"

definition batch_tensor :: "nat \<Rightarrow> int \<Rightarrow> int list list \<Rightarrow> Tensor" where
  "batch_tensor m pad docs =
     \<lparr>shape = [m, length docs],
      entries = map (\<lambda>j. map (\<lambda>d. padded m pad d ! j) docs) [0..<m]\<rparr>"

text \<open>
  The batching the specification describes: the corpus is cut into contiguous runs of
  \<open>batch_size\<close> pairs, a trailing shorter run is dropped (\<open>full_batches\<close>), and the runs are
  turned into tensors one after the other, on the heap the previous run left
  (\<open>materialize\<close>).
\<close>

fun full_batches :: "nat \<Rightarrow> 'a list \<Rightarrow> 'a list list" where
  "full_batches bs xs =
     (if bs = 0 \<or> length xs < bs then []
      else take bs xs # full_batches bs (drop bs xs))"

fun materialize ::
  "SmartDataLoader \<Rightarrow> heap \<Rightarrow> (ref \<times> ref) list list \<Rightarrow> (Tensor \<times> Tensor) list \<Rightarrow>
     (Tensor \<times> Tensor) list \<times> heap \<times> error option" where
  "materialize self h [] yielded = (yielded, h, None)"
| "materialize self h (c # cs) yielded =
     (case build_tensor self h c of
        (h', Inl e) \<Rightarrow> (yielded, h', Some e)
      | (h', Inr t) \<Rightarrow> materialize self h' cs (yielded @ [t]))"

text \<open>
  \<open>batch_value self h c\<close> is the pair of tensors for the run \<open>c\<close> of pairs, computed from
  the cells of the heap \<open>h\<close>.
\<close>

definition batch_value ::
  "SmartDataLoader \<Rightarrow> heap \<Rightarrow> (ref \<times> ref) list \<Rightarrow> Tensor \<times> Tensor" where
  "batch_value self h c =
     (batch_tensor (Max ((\<lambda>p. length (h ! fst p)) ` set c)) (self_PAD_TOKEN self)
        (map (\<lambda>p. h ! fst p) c),
      batch_tensor (Max ((\<lambda>p. length (h ! snd p)) ` set c)) (self_PAD_TOKEN self)
        (map (\<lambda>p. h ! snd p) c))"

text \<open>
  A stand-in for numpy's generator, used only to run the model on concrete inputs: it
  accepts the seeds numpy accepts (\<open>0 \<le> seed < 2\<^sup>3\<^sup>2\<close>) and its shuffle
  rotates the list.
\<close>

definition demo_random :: "nat np_random" where
  "demo_random =
     \<lparr>np_seed = (\<lambda>s. if 0 \<le> s \<and> s < 2 ^ 32 then Some (nat s) else None),
      np_shuffle = (\<lambda>g xs. (rotate (Suc g) xs, Suc g))\<rparr>"

section \<open>Lemmas about the loops\<close>

subsection \<open>Padding\<close>


lemma list_insert_last:
  "list_insert (- 1) x xs = (if xs = [] then [x] else butlast xs @ [x, last xs])"
proof (cases "xs = []")
  case True
  then show ?thesis by (simp add: list_insert_def)
next
  case False
  then have n: "0 < length xs" by simp
  have j: "nat (max 0 (- 1 + int (length xs))) = length xs - 1"
    using n by simp
  have t: "take (length xs - 1) xs = butlast xs"
    by (simp add: butlast_conv_take)
  have d: "drop (length xs - 1) xs = [last xs]"
    using False by (metis append_butlast_last_id append_eq_conv_conj length_butlast)
  show ?thesis
    using False j t d by (simp add: list_insert_def Let_def)
qed

lemma replicate_snoc2: "replicate j x @ [x, x] = replicate (Suc (Suc j)) x"
  by (induction j) simp_all

lemma list_insert_replicate:
  "list_insert (- 1) x (replicate k x) = replicate (Suc k) x"
proof (cases k)
  case 0
  then show ?thesis by (simp add: list_insert_last)
next
  case (Suc j)
  have r: "replicate (Suc j) x = replicate j x @ [x]"
    by (simp add: replicate_append_same)
  have "list_insert (- 1) x (replicate j x @ [x]) = replicate j x @ [x, x]"
    by (simp add: list_insert_last)
  then show ?thesis
    unfolding Suc r replicate_snoc2 .
qed

lemma insert_funpow:
  "(list_insert (- 1) x ^^ k) xs =
     (if xs = [] then replicate k x else butlast xs @ replicate k x @ [last xs])"
proof (induction k)
  case 0
  then show ?case by simp
next
  case (Suc k)
  show ?case
  proof (cases "xs = []")
    case True
    with Suc have "(list_insert (- 1) x ^^ k) xs = replicate k x" by simp
    then have "(list_insert (- 1) x ^^ Suc k) xs = list_insert (- 1) x (replicate k x)"
      by simp
    then show ?thesis using True by (simp add: list_insert_replicate del: funpow.simps)
  next
    case False
    with Suc have "(list_insert (- 1) x ^^ k) xs = butlast xs @ replicate k x @ [last xs]"
      by simp
    then have "(list_insert (- 1) x ^^ Suc k) xs =
        list_insert (- 1) x (butlast xs @ replicate k x @ [last xs])"
      by simp
    also have "\<dots> = butlast xs @ replicate (Suc k) x @ [last xs]"
      by (simp add: list_insert_last butlast_append replicate_append_same)
    finally show ?thesis using False by simp
  qed
qed

lemma length_insert_funpow: "length ((list_insert (- 1) x ^^ k) xs) = length xs + k"
  by (simp add: insert_funpow)

lemma length_padded: "length (padded m pad xs) = max m (length xs)"
  by (simp add: padded_def length_insert_funpow)

lemma padded_idem: "padded m pad (padded m pad xs) = padded m pad xs"
proof -
  have "m - length (padded m pad xs) = 0" by (simp add: length_padded)
  then show ?thesis by (simp add: padded_def[of m pad "padded m pad xs"])
qed

lemma insert_pads_eq:
  "r < length h \<Longrightarrow> insert_pads k pad h r = h[r := (list_insert (- 1) pad ^^ k) (h ! r)]"
proof (induction k arbitrary: h)
  case 0
  then show ?case by simp
next
  case (Suc k)
  then show ?case by (simp add: funpow_swap1)
qed


subsection \<open>The second loop of \<open>_build_tensor\<close> on the heap\<close>


lemma length_pad_cell [simp]: "length (pad_cell m pad h r) = length h"
  by (simp add: pad_cell_def)

lemma length_pad_pair [simp]: "length (pad_pair mi mo pad h p) = length h"
  by (simp add: pad_pair_def)

lemma length_foldl_pad_pair [simp]: "length (foldl (pad_pair mi mo pad) h ps) = length h"
  by (induction ps arbitrary: h) simp_all

lemma pad_cell_conv:
  assumes "r < length h"
  shows "(if length (h ! r) < m then insert_pads (m - length (h ! r)) pad h r else h)
           = pad_cell m pad h r"
proof (cases "length (h ! r) < m")
  case True
  then show ?thesis using assms by (simp add: insert_pads_eq pad_cell_def padded_def)
next
  case False
  then have "m - length (h ! r) = 0" by simp
  then have "padded m pad (h ! r) = h ! r" by (simp add: padded_def)
  then show ?thesis using False by (simp add: pad_cell_def)
qed

lemma pad_docs_foldl:
  assumes "list_all (\<lambda>p. fst p \<noteq> snd p \<and> fst p < length h \<and> snd p < length h) ps"
  shows "pad_docs pad mi mo ps (h, ins, outs) =
           (foldl (pad_pair mi mo pad) h ps, ins @ map fst ps, outs @ map snd ps)"
  using assms
proof (induction ps arbitrary: h ins outs)
  case Nil
  then show ?case by simp
next
  case (Cons p ps)
  obtain a b where p: "p = (a, b)" by (cases p)
  from Cons.prems p have ab: "a \<noteq> b" "a < length h" "b < length h" by simp_all
  have h1: "(if length (h ! a) < mi then insert_pads (mi - length (h ! a)) pad h a else h)
              = pad_cell mi pad h a"
    using ab by (simp only: pad_cell_conv)
  have same: "pad_cell mi pad h a ! b = h ! b"
    using ab by (simp add: pad_cell_def)
  have h2: "(if length (h ! b) < mo
             then insert_pads (mo - length (h ! b)) pad (pad_cell mi pad h a) b
             else pad_cell mi pad h a) = pad_pair mi mo pad h p"
    using pad_cell_conv[of b "pad_cell mi pad h a" mo pad] ab
    unfolding same pad_pair_def p by simp
  have rest: "list_all (\<lambda>q. fst q \<noteq> snd q \<and> fst q < length (pad_pair mi mo pad h p)
                \<and> snd q < length (pad_pair mi mo pad h p)) ps"
    using Cons.prems by simp
  have "pad_docs pad mi mo (p # ps) (h, ins, outs) =
      pad_docs pad mi mo ps (pad_pair mi mo pad h p, ins @ [a], outs @ [b])"
    unfolding p pad_docs.simps Let_def fst_conv snd_conv h1 h2[unfolded p] ..
  then show ?case
    using Cons.IH[OF rest] by (simp add: p)
qed

lemma foldl_pad_pair_nth:
  assumes "set (map fst ps) \<inter> set (map snd ps) = {}" and "r < length h"
  shows "foldl (pad_pair mi mo pad) h ps ! r =
           (if r \<in> set (map fst ps) then padded mi pad (h ! r)
            else if r \<in> set (map snd ps) then padded mo pad (h ! r)
            else h ! r)"
  using assms
proof (induction ps rule: rev_induct)
  case Nil
  then show ?case by simp
next
  case (snoc p ps)
  obtain a b where p: "p = (a, b)" by (cases p)
  let ?H = "foldl (pad_pair mi mo pad) h ps"
  from snoc.prems have disj: "set (map fst ps) \<inter> set (map snd ps) = {}"
    and a: "a \<notin> set (map snd ps)" and b: "b \<notin> set (map fst ps)" and ab: "a \<noteq> b"
    by (auto simp: p)
  have IH: "?H ! r = (if r \<in> set (map fst ps) then padded mi pad (h ! r)
            else if r \<in> set (map snd ps) then padded mo pad (h ! r)
            else h ! r)"
    using snoc.IH[OF disj snoc.prems(2)] .
  have step: "pad_pair mi mo pad ?H p ! r =
      (if r = b then padded mo pad (?H ! b)
       else if r = a then padded mi pad (?H ! a) else ?H ! r)"
    using snoc.prems(2) ab by (simp add: pad_pair_def pad_cell_def p nth_list_update)
  show ?case
    using step IH a b ab by (auto simp: p padded_idem)
qed


subsection \<open>\<open>_build_tensor\<close> on a batch whose input and output lists are different objects\<close>


lemma max_lens_eq:
  "max_lens h ps (a, b) =
     (Max (insert a ((\<lambda>p. length (h ! fst p)) ` set ps)),
      Max (insert b ((\<lambda>p. length (h ! snd p)) ` set ps)))"
proof (induction ps arbitrary: a b)
  case Nil
  then show ?case by simp
next
  case (Cons p ps)
  have m: "Max (insert (max x y) (f ` set ps)) = Max (insert x (insert y (f ` set ps)))"
    for x y :: nat and f :: "ref \<times> ref \<Rightarrow> nat"
    by (cases "set ps = {}") (simp_all add: max.assoc)
  show ?case
    by (simp add: Cons.IH m)
qed

lemma np_array_rect:
  assumes "rows \<noteq> []" and "\<forall>r \<in> set rows. length r = m"
  shows "np_array rows = Inr \<lparr>shape = [length rows, m], entries = rows\<rparr>"
proof -
  obtain d ds where r: "rows = d # ds" using assms(1) by (cases rows) auto
  with assms(2) have "length d = m" "list_all (\<lambda>x. length x = length d) ds"
    by (simp_all add: list_all_iff)
  then show ?thesis by (simp add: np_array_def r)
qed

lemma np_transpose_2d:
  "np_transpose \<lparr>shape = [n, m], entries = rows\<rparr> =
     \<lparr>shape = [m, n], entries = map (\<lambda>j. map (\<lambda>row. row ! j) rows) [0..<m]\<rparr>"
  by (simp add: np_transpose_def)

lemma build_tensor_eq:
  assumes ne: "ps \<noteq> []"
    and valid: "list_all (\<lambda>p. fst p < length h \<and> snd p < length h) ps"
    and disj: "set (map fst ps) \<inter> set (map snd ps) = {}"
  defines "mi \<equiv> Max ((\<lambda>p. length (h ! fst p)) ` set ps)"
    and "mo \<equiv> Max ((\<lambda>p. length (h ! snd p)) ` set ps)"
  shows "build_tensor self h ps =
           (foldl (pad_pair mi mo (self_PAD_TOKEN self)) h ps,
            Inr (batch_tensor mi (self_PAD_TOKEN self) (map (\<lambda>p. h ! fst p) ps),
                 batch_tensor mo (self_PAD_TOKEN self) (map (\<lambda>p. h ! snd p) ps)))"
proof -
  let ?pad = "self_PAD_TOKEN self"
  let ?H = "foldl (pad_pair mi mo ?pad) h ps"
  have ml: "max_lens h ps (0, 0) = (mi, mo)"
    using ne by (simp add: max_lens_eq mi_def mo_def)
  have v': "list_all (\<lambda>p. fst p \<noteq> snd p \<and> fst p < length h \<and> snd p < length h) ps"
    using valid disj by (auto simp: list_all_iff)
  have pd: "pad_docs ?pad mi mo ps (h, [], []) = (?H, map fst ps, map snd ps)"
    using pad_docs_foldl[OF v', of ?pad mi mo "[]" "[]"] by simp
  have rin: "map (\<lambda>r. ?H ! r) (map fst ps) = map (\<lambda>p. padded mi ?pad (h ! fst p)) ps"
    using valid disj by (auto simp: list_all_iff foldl_pad_pair_nth[OF disj])
  have rout: "map (\<lambda>r. ?H ! r) (map snd ps) = map (\<lambda>p. padded mo ?pad (h ! snd p)) ps"
    using valid disj by (auto simp: list_all_iff foldl_pad_pair_nth[OF disj])
  have gi: "length (h ! fst p) \<le> mi" if "p \<in> set ps" for p
    using that by (simp add: mi_def)
  have go: "length (h ! snd p) \<le> mo" if "p \<in> set ps" for p
    using that by (simp add: mo_def)
  have li: "\<forall>r \<in> set (map (\<lambda>p. padded mi ?pad (h ! fst p)) ps). length r = mi"
    using gi by (fastforce simp: length_padded max_def)
  have lo: "\<forall>r \<in> set (map (\<lambda>p. padded mo ?pad (h ! snd p)) ps). length r = mo"
    using go by (fastforce simp: length_padded max_def)
  have ai: "np_array (map (\<lambda>p. padded mi ?pad (h ! fst p)) ps) =
      Inr \<lparr>shape = [length ps, mi], entries = map (\<lambda>p. padded mi ?pad (h ! fst p)) ps\<rparr>"
    using np_array_rect[OF _ li] ne by simp
  have ao: "np_array (map (\<lambda>p. padded mo ?pad (h ! snd p)) ps) =
      Inr \<lparr>shape = [length ps, mo], entries = map (\<lambda>p. padded mo ?pad (h ! snd p)) ps\<rparr>"
    using np_array_rect[OF _ lo] ne by simp
  show ?thesis
    unfolding build_tensor_def ml prod.case pd rin rout ai ao sum.case np_transpose_2d
      torch_tensor_def batch_tensor_def
    by (simp add: comp_def)
qed


subsection \<open>The accumulation loop of \<open>__iter__\<close>\<close>


declare full_batches.simps [simp del]

lemma length_full_batches: "length (full_batches bs xs) = length xs div bs"
proof (induction bs xs rule: full_batches.induct)
  case (1 bs xs)
  show ?case
  proof (cases "bs = 0 \<or> length xs < bs")
    case True
    then show ?thesis by (auto simp: full_batches.simps[of bs xs])
  next
    case False
    then have "length xs div bs = Suc ((length xs - bs) div bs)"
      by (simp add: le_div_geq)
    with False 1 show ?thesis by (simp add: full_batches.simps[of bs xs])
  qed
qed

lemma concat_full_batches: "concat (full_batches bs xs) = take (length xs div bs * bs) xs"
proof (induction bs xs rule: full_batches.induct)
  case (1 bs xs)
  show ?case
  proof (cases "bs = 0 \<or> length xs < bs")
    case True
    then show ?thesis by (auto simp: full_batches.simps[of bs xs])
  next
    case False
    then have d: "length xs div bs = Suc ((length xs - bs) div bs)"
      by (simp add: le_div_geq)
    have "take (bs + k) xs = take bs xs @ take k (drop bs xs)" for k
      by (simp add: take_add)
    with False 1 d show ?thesis
      by (simp add: full_batches.simps[of bs xs])
  qed
qed

lemma full_batches_chunk:
  "c \<in> set (full_batches bs xs) \<Longrightarrow> length c = bs \<and> c \<noteq> [] \<and> set c \<subseteq> set xs"
proof (induction bs xs rule: full_batches.induct)
  case (1 bs xs)
  show ?case
  proof (cases "bs = 0 \<or> length xs < bs")
    case True
    with 1(2) show ?thesis by (simp add: full_batches.simps[of bs xs])
  next
    case False
    with 1(2) have "c = take bs xs \<or> c \<in> set (full_batches bs (drop bs xs))"
      by (simp add: full_batches.simps[of bs xs])
    then show ?thesis
    proof
      assume "c = take bs xs"
      with False show ?thesis by (auto dest: in_set_takeD)
    next
      assume "c \<in> set (full_batches bs (drop bs xs))"
      with 1(1)[OF False] show ?thesis by (auto dest: in_set_dropD)
    qed
  qed
qed

text \<open>The accumulation loop up to the next yield.\<close>

lemma iter_loop_accumulate:
  assumes "\<forall>i \<in> set idxs. i < length (docs_tokens_encoded (input_vocab self)) \<and>
                          i < length (docs_tokens_encoded (output_vocab self))"
    and "batch_size self = int bs" and "length c < bs"
  shows "iter_loop self idxs (int (length c)) c h y =
     (if length c + length idxs < bs then (y, h, None)
      else case build_tensor self h
                  (c @ map (\<lambda>i. (docs_tokens_encoded (input_vocab self) ! i,
                                  docs_tokens_encoded (output_vocab self) ! i))
                         (take (bs - length c) idxs)) of
             (h', Inl e) \<Rightarrow> (y, h', Some e)
           | (h', Inr t) \<Rightarrow> iter_loop self (drop (bs - length c) idxs) 0 [] h' (y @ [t]))"
  using assms
proof (induction idxs arbitrary: c)
  case Nil
  then show ?case by simp
next
  case (Cons i rest)
  let ?pr = "\<lambda>i. (docs_tokens_encoded (input_vocab self) ! i,
                   docs_tokens_encoded (output_vocab self) ! i)"
  from Cons.prems have ir: "i < length (docs_tokens_encoded (input_vocab self))"
      "i < length (docs_tokens_encoded (output_vocab self))"
    and rest: "\<forall>i \<in> set rest. i < length (docs_tokens_encoded (input_vocab self)) \<and>
                          i < length (docs_tokens_encoded (output_vocab self))"
    by simp_all
  show ?case
  proof (cases "Suc (length c) = bs")
    case True
    then have k: "bs - length c = Suc 0" by simp
    from True have eq: "int (length c) + 1 = batch_size self"
      using Cons.prems(2) by simp
    show ?thesis
      using ir eq True by (simp add: k Let_def)
  next
    case False
    with Cons.prems(3) have lt: "length (c @ [?pr i]) < bs" by simp
    from False Cons.prems(2) have ne: "int (length c) + 1 \<noteq> batch_size self" by simp
    have k: "bs - length c = Suc (bs - Suc (length c))"
      using lt by simp
    have tk: "take (bs - length c) (i # rest) = i # take (bs - Suc (length c)) rest"
      and dk: "drop (bs - length c) (i # rest) = drop (bs - Suc (length c)) rest"
      by (simp_all only: k take_Suc_Cons drop_Suc_Cons)
    have step: "iter_loop self (i # rest) (int (length c)) c h y =
        iter_loop self rest (int (length (c @ [?pr i]))) (c @ [?pr i]) h y"
      using ir ne by (simp add: Let_def add.commute)
    show ?thesis
      unfolding step Cons.IH[OF rest Cons.prems(2) lt] tk dk
      by simp
  qed
qed

lemma iter_loop_batches:
  assumes "\<forall>i \<in> set idxs. i < length (docs_tokens_encoded (input_vocab self)) \<and>
                          i < length (docs_tokens_encoded (output_vocab self))"
    and "batch_size self = int bs" and "0 < bs"
  shows "iter_loop self idxs 0 [] h y =
     materialize self h
       (full_batches bs (map (\<lambda>i. (docs_tokens_encoded (input_vocab self) ! i,
                                  docs_tokens_encoded (output_vocab self) ! i)) idxs)) y"
  using assms(1)
proof (induction "length idxs" arbitrary: idxs h y rule: less_induct)
  case less
  let ?pr = "\<lambda>i. (docs_tokens_encoded (input_vocab self) ! i,
                   docs_tokens_encoded (output_vocab self) ! i)"
  have acc: "iter_loop self idxs 0 [] h y =
     (if length idxs < bs then (y, h, None)
      else case build_tensor self h (map ?pr (take bs idxs)) of
             (h', Inl e) \<Rightarrow> (y, h', Some e)
           | (h', Inr t) \<Rightarrow> iter_loop self (drop bs idxs) 0 [] h' (y @ [t]))"
    using iter_loop_accumulate[OF less.prems assms(2), of "[]" h y] assms(3) by simp
  show ?case
  proof (cases "length idxs < bs")
    case True
    then show ?thesis
      using acc assms(3) by (simp add: full_batches.simps[of bs "map ?pr idxs"])
  next
    case False
    have shorter: "length (drop bs idxs) < length idxs"
      using False assms(3) by simp
    have inr: "\<forall>i \<in> set (drop bs idxs). i < length (docs_tokens_encoded (input_vocab self)) \<and>
                          i < length (docs_tokens_encoded (output_vocab self))"
      using less.prems by (auto dest: in_set_dropD)
    have fb: "full_batches bs (map ?pr idxs) =
        map ?pr (take bs idxs) # full_batches bs (map ?pr (drop bs idxs))"
      using False assms(3) by (simp add: full_batches.simps[of bs "map ?pr idxs"] take_map drop_map)
    show ?thesis
      unfolding acc fb using False less.hyps[OF shorter inr]
      by (simp split: prod.splits sum.splits)
  qed
qed


subsection \<open>Batches that cannot fail, and copies that are fresh\<close>


lemma materialize_ok:
  assumes "\<forall>c \<in> set chunks. c \<noteq> [] \<and> list_all (\<lambda>p. fst p < length h \<and> snd p < length h) c
              \<and> set (map fst c) \<inter> set (map snd c) = {}"
  shows "\<exists>ys h'. materialize self h chunks y = (y @ ys, h', None)
            \<and> length ys = length chunks \<and> length h' = length h"
  using assms
proof (induction chunks arbitrary: h y)
  case Nil
  then show ?case by simp
next
  case (Cons c cs)
  from Cons.prems have c: "c \<noteq> []" "list_all (\<lambda>p. fst p < length h \<and> snd p < length h) c"
      "set (map fst c) \<inter> set (map snd c) = {}"
    by simp_all
  obtain h1 t where bt: "build_tensor self h c = (h1, Inr t)" and l1: "length h1 = length h"
    using build_tensor_eq[OF c, of self] by simp
  have rest: "\<forall>c \<in> set cs. c \<noteq> [] \<and> list_all (\<lambda>p. fst p < length h1 \<and> snd p < length h1) c
              \<and> set (map fst c) \<inter> set (map snd c) = {}"
    using Cons.prems l1 by simp
  from Cons.IH[OF rest, of "y @ [t]"] obtain ys h' where
    "materialize self h1 cs (y @ [t]) = ((y @ [t]) @ ys, h', None)"
    "length ys = length cs" "length h' = length h1"
    by blast
  then have "materialize self h (c # cs) y = (y @ (t # ys), h', None)
      \<and> length (t # ys) = length (c # cs) \<and> length h' = length h"
    using bt l1 by simp
  then show ?case by blast
qed

lemma iter_loop_nonpositive:
  assumes "batch_size self \<le> 0" and "0 \<le> b"
  shows "\<exists>e. iter_loop self idxs b c h y = (y, h, e)"
  using assms(2)
proof (induction idxs arbitrary: b c)
  case Nil
  then show ?case by simp
next
  case (Cons i rest)
  have ne: "b + 1 \<noteq> batch_size self" using assms(1) Cons.prems by simp
  have nn: "0 \<le> b + 1" using Cons.prems by simp
  show ?case
    using ne Cons.IH[OF nn] by (simp add: Let_def)
qed

lemma iter_loop_nonpositive_ok:
  assumes "batch_size self \<le> 0" and "0 \<le> b"
    and "\<forall>i \<in> set idxs. i < length (docs_tokens_encoded (input_vocab self)) \<and>
                          i < length (docs_tokens_encoded (output_vocab self))"
  shows "iter_loop self idxs b c h y = (y, h, None)"
  using assms(2,3)
proof (induction idxs arbitrary: b c)
  case Nil
  then show ?case by simp
next
  case (Cons i rest)
  have ne: "b + 1 \<noteq> batch_size self" using assms(1) Cons.prems by simp
  have nn: "0 \<le> b + 1" using Cons.prems by simp
  show ?case
    using ne Cons.IH[OF nn] Cons.prems(2) by (simp add: Let_def)
qed

lemma deepcopy_docs_range:
  assumes "deepcopy_docs memo h rs = (rs', h')"
    and "\<forall>b \<in> snd ` set memo. n0 \<le> b \<and> b < length h"
    and "n0 \<le> length h"
  shows "length rs' = length rs \<and> length h \<le> length h' \<and> (\<forall>r \<in> set rs'. n0 \<le> r \<and> r < length h')"
  using assms
proof (induction rs arbitrary: memo h rs' h')
  case Nil
  then show ?case by simp
next
  case (Cons r rs)
  show ?case
  proof (cases "map_of memo r")
    case None
    obtain rs1 h1 where rec: "deepcopy_docs ((r, length h) # memo) (h @ [h ! r]) rs = (rs1, h1)"
      by (cases "deepcopy_docs ((r, length h) # memo) (h @ [h ! r]) rs")
    with None Cons.prems(1) have res: "rs' = length h # rs1" "h' = h1" by simp_all
    have m: "\<forall>b \<in> snd ` set ((r, length h) # memo). n0 \<le> b \<and> b < length (h @ [h ! r])"
      using Cons.prems(2,3) by auto
    have n: "n0 \<le> length (h @ [h ! r])" using Cons.prems(3) by simp
    from Cons.IH[OF rec m n] show ?thesis
      using res Cons.prems(3) by auto
  next
    case (Some r')
    obtain rs1 h1 where rec: "deepcopy_docs memo h rs = (rs1, h1)"
      by (cases "deepcopy_docs memo h rs")
    with Some Cons.prems(1) have res: "rs' = r' # rs1" "h' = h1" by simp_all
    from Some have "(r, r') \<in> set memo" by (rule map_of_SomeD)
    then have "r' \<in> snd ` set memo" by force
    with Cons.prems(2) have r': "n0 \<le> r'" "r' < length h" by auto
    from Cons.IH[OF rec Cons.prems(2,3)] show ?thesis
      using res r' by auto
  qed
qed

lemma deepcopy_range:
  assumes "deepcopy v h = (v', h')"
  shows "length (docs_tokens_encoded v') = length (docs_tokens_encoded v)
       \<and> PAD_TOKEN v' = PAD_TOKEN v \<and> length h \<le> length h'
       \<and> (\<forall>r \<in> set (docs_tokens_encoded v'). length h \<le> r \<and> r < length h')"
proof -
  obtain rs h1 where d: "deepcopy_docs [] h (docs_tokens_encoded v) = (rs, h1)"
    by (cases "deepcopy_docs [] h (docs_tokens_encoded v)")
  with assms have v': "v' = v\<lparr>docs_tokens_encoded := rs\<rparr>" "h' = h1"
    by (simp_all add: deepcopy_def)
  from deepcopy_docs_range[OF d, of "length h"] show ?thesis
    using v' by simp
qed


subsection \<open>Construction\<close>


lemma shuffle_vocab_data_Inr:
  assumes perm: "\<forall>g xs. mset (fst (np_shuffle np g xs)) = mset xs"
    and s: "shuffle_vocab_data np g seed iv ov = Inr (iv', ov', g')"
  shows "mset (zip (docs_tokens_encoded iv') (docs_tokens_encoded ov')) =
           mset (zip (docs_tokens_encoded iv) (docs_tokens_encoded ov))
       \<and> length (docs_tokens_encoded iv') = length (docs_tokens_encoded ov')
       \<and> PAD_TOKEN iv' = PAD_TOKEN iv \<and> PAD_TOKEN ov' = PAD_TOKEN ov"
proof -
  let ?j = "zip (docs_tokens_encoded iv) (docs_tokens_encoded ov)"
  from s obtain g1 where g1: "np_seed np seed = Some g1"
    by (auto simp: shuffle_vocab_data_def split: option.splits)
  obtain sh g2 where sh: "np_shuffle np g1 ?j = (sh, g2)"
    by (cases "np_shuffle np g1 ?j")
  with s g1 have r: "iv' = iv\<lparr>docs_tokens_encoded := map fst sh\<rparr>"
      "ov' = ov\<lparr>docs_tokens_encoded := map snd sh\<rparr>"
    by (auto simp: shuffle_vocab_data_def split: if_splits)
  have "mset sh = mset ?j" using perm sh by (metis fst_conv)
  then show ?thesis using r by (simp add: zip_map_fst_snd)
qed

lemma shuffle_vocab_data_succeeds:
  assumes perm: "\<forall>g xs. mset (fst (np_shuffle np g xs)) = mset xs"
    and seed: "np_seed np seed \<noteq> None"
    and ne: "docs_tokens_encoded iv \<noteq> []" "docs_tokens_encoded ov \<noteq> []"
  shows "\<exists>r. shuffle_vocab_data np g seed iv ov = Inr r"
proof -
  let ?j = "zip (docs_tokens_encoded iv) (docs_tokens_encoded ov)"
  from seed obtain g1 where g1: "np_seed np seed = Some g1" by auto
  obtain sh g2 where sh: "np_shuffle np g1 ?j = (sh, g2)"
    by (cases "np_shuffle np g1 ?j")
  have "mset sh = mset ?j" using perm sh by (metis fst_conv)
  moreover have "?j \<noteq> []" using ne by (cases "docs_tokens_encoded iv"; cases "docs_tokens_encoded ov") simp_all
  ultimately have "sh \<noteq> []" by auto
  then show ?thesis using g1 sh by (simp add: shuffle_vocab_data_def)
qed

lemma shuffle_vocab_data_refs:
  assumes perm: "\<forall>g xs. mset (fst (np_shuffle np g xs)) = mset xs"
    and s: "shuffle_vocab_data np g seed iv ov = Inr (iv', ov', g')"
  shows "length (docs_tokens_encoded iv') =
           min (length (docs_tokens_encoded iv)) (length (docs_tokens_encoded ov))
       \<and> length (docs_tokens_encoded ov') =
           min (length (docs_tokens_encoded iv)) (length (docs_tokens_encoded ov))
       \<and> set (docs_tokens_encoded iv') \<subseteq> set (docs_tokens_encoded iv)
       \<and> set (docs_tokens_encoded ov') \<subseteq> set (docs_tokens_encoded ov)"
proof -
  note sh = shuffle_vocab_data_Inr[OF perm s]
  let ?zi = "zip (docs_tokens_encoded iv') (docs_tokens_encoded ov')"
  let ?z0 = "zip (docs_tokens_encoded iv) (docs_tokens_encoded ov)"
  have leq: "length (docs_tokens_encoded iv') = length (docs_tokens_encoded ov')"
    using sh by simp
  have "size (mset ?zi) = size (mset ?z0)" using sh by simp
  then have len: "length (docs_tokens_encoded iv') =
      min (length (docs_tokens_encoded iv)) (length (docs_tokens_encoded ov))"
    using leq by simp
  have sets: "set ?zi = set ?z0" using sh by (metis set_mset_mset)
  have fi: "set (docs_tokens_encoded iv') \<subseteq> set (docs_tokens_encoded iv)"
  proof
    fix a assume "a \<in> set (docs_tokens_encoded iv')"
    then obtain k where k: "k < length (docs_tokens_encoded iv')" "docs_tokens_encoded iv' ! k = a"
      by (auto simp: in_set_conv_nth)
    then have "(a, docs_tokens_encoded ov' ! k) \<in> set ?zi"
      using leq by (auto simp: set_zip)
    then have "(a, docs_tokens_encoded ov' ! k) \<in> set ?z0" using sets by simp
    then show "a \<in> set (docs_tokens_encoded iv)" by (rule set_zip_leftD)
  qed
  have fo: "set (docs_tokens_encoded ov') \<subseteq> set (docs_tokens_encoded ov)"
  proof
    fix b assume "b \<in> set (docs_tokens_encoded ov')"
    then obtain k where k: "k < length (docs_tokens_encoded ov')" "docs_tokens_encoded ov' ! k = b"
      by (auto simp: in_set_conv_nth)
    then have "(docs_tokens_encoded iv' ! k, b) \<in> set ?zi"
      using leq by (auto simp: set_zip)
    then have "(docs_tokens_encoded iv' ! k, b) \<in> set ?z0" using sets by simp
    then show "b \<in> set (docs_tokens_encoded ov)" by (rule set_zip_rightD)
  qed
  from len leq fi fo show ?thesis by simp
qed

lemma init_no_override:
  assumes perm: "\<forall>g xs. mset (fst (np_shuffle np g xs)) = mset xs"
    and init: "SmartDataLoader_init np w iv ov bs None None seed = Inr (L, h', g')"
  shows "batch_size L = bs \<and> n_sentences L = length (docs_tokens_encoded iv)
       \<and> self_PAD_TOKEN L = PAD_TOKEN iv
       \<and> length (docs_tokens_encoded (input_vocab L)) =
           min (length (docs_tokens_encoded iv)) (length (docs_tokens_encoded ov))
       \<and> length (docs_tokens_encoded (output_vocab L)) =
           min (length (docs_tokens_encoded iv)) (length (docs_tokens_encoded ov))
       \<and> list_all (\<lambda>r. r < length h') (docs_tokens_encoded (input_vocab L))
       \<and> list_all (\<lambda>r. r < length h') (docs_tokens_encoded (output_vocab L))
       \<and> set (docs_tokens_encoded (input_vocab L)) \<inter> set (docs_tokens_encoded (output_vocab L)) = {}"
proof -
  obtain iv0 h1 where d1: "deepcopy iv (fst w) = (iv0, h1)" by (cases "deepcopy iv (fst w)")
  obtain ov0 h2 where d2: "deepcopy ov h1 = (ov0, h2)" by (cases "deepcopy ov h1")
  from init d1 d2 obtain iv' ov' where
    sv: "shuffle_vocab_data np (snd w) seed iv0 ov0 = Inr (iv', ov', g')"
    and L: "L = \<lparr>input_vocab = iv', output_vocab = ov', batch_size = bs,
                 input_docs_tokens_encoded = None, output_docs_tokens_encoded = None,
                 random_seed = seed, n_sentences = length (docs_tokens_encoded iv),
                 self_PAD_TOKEN = PAD_TOKEN iv\<rparr>"
    and h': "h' = h2"
    by (auto simp: SmartDataLoader_init_def split: sum.splits)
  note r1 = deepcopy_range[OF d1] and r2 = deepcopy_range[OF d2]
  note sh = shuffle_vocab_data_refs[OF perm sv]
  have len: "length (docs_tokens_encoded iv') =
      min (length (docs_tokens_encoded iv)) (length (docs_tokens_encoded ov))"
    "length (docs_tokens_encoded ov') =
      min (length (docs_tokens_encoded iv)) (length (docs_tokens_encoded ov))"
    using sh r1 r2 by simp_all
  have vi: "\<forall>r \<in> set (docs_tokens_encoded iv'). r < length h1"
    using sh r1 by blast
  have vo: "\<forall>r \<in> set (docs_tokens_encoded ov'). length h1 \<le> r \<and> r < length h2"
    using sh r2 by blast
  have "length h1 \<le> length h2" using r2 by simp
  with vi vo have "list_all (\<lambda>r. r < length h2) (docs_tokens_encoded iv')"
      "list_all (\<lambda>r. r < length h2) (docs_tokens_encoded ov')"
    by (auto simp: list_all_iff)
  moreover have "set (docs_tokens_encoded iv') \<inter> set (docs_tokens_encoded ov') = {}"
    using vi vo by fastforce
  ultimately show ?thesis using L h' len by simp
qed

lemma init_succeeds:
  assumes perm: "\<forall>g xs. mset (fst (np_shuffle np g xs)) = mset xs"
    and seed: "np_seed np seed \<noteq> None"
    and ne: "docs_tokens_encoded iv \<noteq> []" "docs_tokens_encoded ov \<noteq> []"
  shows "\<exists>r. SmartDataLoader_init np w iv ov bs None None seed = Inr r"
proof -
  obtain iv0 h1 where d1: "deepcopy iv (fst w) = (iv0, h1)" by (cases "deepcopy iv (fst w)")
  obtain ov0 h2 where d2: "deepcopy ov h1 = (ov0, h2)" by (cases "deepcopy ov h1")
  have "docs_tokens_encoded iv0 \<noteq> []" "docs_tokens_encoded ov0 \<noteq> []"
    using deepcopy_range[OF d1] deepcopy_range[OF d2] ne by auto
  from shuffle_vocab_data_succeeds[OF perm seed this, of "snd w"]
  obtain r where "shuffle_vocab_data np (snd w) seed iv0 ov0 = Inr r" by blast
  then show ?thesis
    using d1 d2 by (cases r) (simp add: SmartDataLoader_init_def)
qed

lemma init_override:
  assumes perm: "\<forall>g xs. mset (fst (np_shuffle np g xs)) = mset xs"
    and init: "SmartDataLoader_init np w iv ov bs (Some i) (Some o') seed = Inr (L, h', g')"
  shows "batch_size L = bs \<and> n_sentences L = length (docs_tokens_encoded iv)
       \<and> length (docs_tokens_encoded (input_vocab L)) = min (length i) (length o')
       \<and> length (docs_tokens_encoded (output_vocab L)) = min (length i) (length o')
       \<and> set (docs_tokens_encoded (input_vocab L)) \<subseteq> set i
       \<and> set (docs_tokens_encoded (output_vocab L)) \<subseteq> set o'
       \<and> length (fst w) \<le> length h'"
proof -
  obtain iv0 h1 where d1: "deepcopy iv (fst w) = (iv0, h1)" by (cases "deepcopy iv (fst w)")
  obtain ov0 h2 where d2: "deepcopy ov h1 = (ov0, h2)" by (cases "deepcopy ov h1")
  from init d1 d2 obtain iv' ov' where
    sv: "shuffle_vocab_data np (snd w) seed (iv0\<lparr>docs_tokens_encoded := i\<rparr>)
           (ov0\<lparr>docs_tokens_encoded := o'\<rparr>) = Inr (iv', ov', g')"
    and L: "L = \<lparr>input_vocab = iv', output_vocab = ov', batch_size = bs,
                 input_docs_tokens_encoded = Some i, output_docs_tokens_encoded = Some o',
                 random_seed = seed, n_sentences = length (docs_tokens_encoded iv),
                 self_PAD_TOKEN = PAD_TOKEN iv\<rparr>"
    and h': "h' = h2"
    by (auto simp: SmartDataLoader_init_def split: sum.splits)
  note r = shuffle_vocab_data_refs[OF perm sv]
  have "length (fst w) \<le> length h2"
    using deepcopy_range[OF d1] deepcopy_range[OF d2] by simp
  with r L h' show ?thesis by simp
qed

subsection \<open>Iteration over a loader whose input and output lists are different objects\<close>

lemma map_nth_zip:
  assumes "n \<le> length xs" and "n \<le> length ys"
  shows "map (\<lambda>i. (xs ! i, ys ! i)) [0..<n] = take n (zip xs ys)"
  using assms by (intro nth_equalityI) simp_all

lemma iter_as_batches:
  assumes "batch_size self = int bs" and "0 < bs"
    and "n_sentences self \<le> length (docs_tokens_encoded (input_vocab self))"
    and "n_sentences self \<le> length (docs_tokens_encoded (output_vocab self))"
  shows "SmartDataLoader_iter self h =
           materialize self h
             (full_batches bs
                (take (n_sentences self)
                   (zip (docs_tokens_encoded (input_vocab self))
                        (docs_tokens_encoded (output_vocab self))))) []"
proof -
  have r: "\<forall>i \<in> set [0..<n_sentences self].
            i < length (docs_tokens_encoded (input_vocab self)) \<and>
            i < length (docs_tokens_encoded (output_vocab self))"
    using assms(3,4) by auto
  show ?thesis
    unfolding SmartDataLoader_iter_def iter_loop_batches[OF r assms(1,2)]
      map_nth_zip[OF assms(3,4)] ..
qed

lemma iter_succeeds:
  assumes "batch_size self = int bs" and "0 < bs"
    and "n_sentences self \<le> length (docs_tokens_encoded (input_vocab self))"
    and "n_sentences self \<le> length (docs_tokens_encoded (output_vocab self))"
    and "list_all (\<lambda>r. r < length h) (docs_tokens_encoded (input_vocab self))"
    and "list_all (\<lambda>r. r < length h) (docs_tokens_encoded (output_vocab self))"
    and "set (docs_tokens_encoded (input_vocab self)) \<inter>
         set (docs_tokens_encoded (output_vocab self)) = {}"
  shows "\<exists>ys h'. SmartDataLoader_iter self h = (ys, h', None)
            \<and> length ys = n_sentences self div bs \<and> length h' = length h"
proof -
  let ?ins = "docs_tokens_encoded (input_vocab self)"
  let ?outs = "docs_tokens_encoded (output_vocab self)"
  let ?ps = "take (n_sentences self) (zip ?ins ?outs)"
  have len: "length ?ps = n_sentences self" using assms(3,4) by simp
  have chunk_ok: "c \<noteq> [] \<and> list_all (\<lambda>p. fst p < length h \<and> snd p < length h) c
              \<and> set (map fst c) \<inter> set (map snd c) = {}"
    if c: "c \<in> set (full_batches bs ?ps)" for c
  proof -
    from full_batches_chunk[OF c] have ne: "c \<noteq> []" and sub: "set c \<subseteq> set ?ps" by simp_all
    have m: "fst p \<in> set ?ins \<and> snd p \<in> set ?outs" if "p \<in> set c" for p
    proof -
      obtain a b where p: "p = (a, b)" by (cases p)
      from that sub have "(a, b) \<in> set (zip ?ins ?outs)"
        unfolding p by (auto dest: in_set_takeD)
      then have "a \<in> set ?ins" "b \<in> set ?outs"
        by (rule set_zip_leftD, rule set_zip_rightD)
      then show ?thesis by (simp add: p)
    qed
    have v: "list_all (\<lambda>p. fst p < length h \<and> snd p < length h) c"
      using m assms(5,6) by (auto simp: list_all_iff)
    have d: "set (map fst c) \<inter> set (map snd c) = {}"
      using m assms(7) by fastforce
    from ne v d show ?thesis by simp
  qed
  then have "\<forall>c \<in> set (full_batches bs ?ps). c \<noteq> []
      \<and> list_all (\<lambda>p. fst p < length h \<and> snd p < length h) c
      \<and> set (map fst c) \<inter> set (map snd c) = {}"
    by blast
  from materialize_ok[OF this, of self "[]"] obtain ys h' where
    "materialize self h (full_batches bs ?ps) [] = (ys, h', None)"
    "length ys = length (full_batches bs ?ps)" "length h' = length h"
    by auto
  then show ?thesis
    using iter_as_batches[OF assms(1-4), of h] len by (simp add: length_full_batches)
qed

lemma mset_rotate1: "mset (rotate1 xs) = mset xs"
  by (cases xs) simp_all

lemma mset_rotate: "mset (rotate n xs) = mset xs"
  by (induction n) (simp_all add: mset_rotate1)

lemma demo_random_permutes: "\<forall>g xs. mset (fst (np_shuffle demo_random g xs)) = mset xs"
  by (simp add: demo_random_def mset_rotate del: rotate_Suc)

subsection \<open>Batches of a corpus in which every sequence is a list object of its own\<close>

lemma nth_full_batches:
  "k < length xs div bs \<Longrightarrow> full_batches bs xs ! k = take bs (drop (k * bs) xs)"
proof (induction bs xs arbitrary: k rule: full_batches.induct)
  case (1 bs xs)
  show ?case
  proof (cases "bs = 0 \<or> length xs < bs")
    case True
    with 1(2) show ?thesis by auto
  next
    case False
    then have d: "length xs div bs = Suc ((length xs - bs) div bs)"
      by (simp add: le_div_geq)
    have fb: "full_batches bs xs = take bs xs # full_batches bs (drop bs xs)"
      using False by (simp add: full_batches.simps[of bs xs])
    show ?thesis
    proof (cases k)
      case 0
      then show ?thesis by (simp add: fb)
    next
      case (Suc k')
      with 1(2) d have "k' < length (drop bs xs) div bs" by simp
      from 1(1)[OF False this] show ?thesis
        by (simp add: fb Suc add.commute)
    qed
  qed
qed

lemma take_drop_map_nth:
  assumes "a + b \<le> length xs"
  shows "take b (drop a xs) = map (\<lambda>i. xs ! i) [a..<a + b]"
  using assms by (intro nth_equalityI) simp_all

lemma batch_value_cong:
  assumes "\<forall>p \<in> set c. h1 ! fst p = h2 ! fst p \<and> h1 ! snd p = h2 ! snd p"
  shows "batch_value self h1 c = batch_value self h2 c"
proof -
  have i: "(\<lambda>p. length (h1 ! fst p)) ` set c = (\<lambda>p. length (h2 ! fst p)) ` set c"
    using assms by (intro image_cong) simp_all
  have o: "(\<lambda>p. length (h1 ! snd p)) ` set c = (\<lambda>p. length (h2 ! snd p)) ` set c"
    using assms by (intro image_cong) simp_all
  have mi: "map (\<lambda>p. h1 ! fst p) c = map (\<lambda>p. h2 ! fst p) c"
    using assms by simp
  have mo: "map (\<lambda>p. h1 ! snd p) c = map (\<lambda>p. h2 ! snd p) c"
    using assms by simp
  show ?thesis by (simp only: batch_value_def i o mi mo)
qed

lemma distinct_split4:
  assumes "distinct ((A @ B) @ (C @ D))"
  shows "set A \<inter> set C = {}" and "distinct (B @ D)"
    and "(set A \<union> set C) \<inter> (set B \<union> set D) = {}"
  using assms by auto

lemma materialize_distinct:
  assumes "distinct (map fst (concat chunks) @ map snd (concat chunks))"
    and "list_all (\<lambda>p. fst p < length h \<and> snd p < length h) (concat chunks)"
    and "\<forall>c \<in> set chunks. c \<noteq> []"
  shows "\<exists>h'. materialize self h chunks y = (y @ map (batch_value self h) chunks, h', None)"
  using assms
proof (induction chunks arbitrary: h y)
  case Nil
  then show ?case by simp
next
  case (Cons c cs)
  let ?rest = "concat cs"
  from Cons.prems have ne: "c \<noteq> []"
    and vc: "list_all (\<lambda>p. fst p < length h \<and> snd p < length h) c"
    and vr: "list_all (\<lambda>p. fst p < length h \<and> snd p < length h) ?rest"
    and nes: "\<forall>c \<in> set cs. c \<noteq> []"
    by simp_all
  from Cons.prems(1) have
    "distinct ((map fst c @ map fst ?rest) @ (map snd c @ map snd ?rest))"
    by simp
  note d4 = distinct_split4[OF this]
  note dc = d4(1) and dr = d4(2) and sep = d4(3)
  let ?mi = "Max ((\<lambda>p. length (h ! fst p)) ` set c)"
  let ?mo = "Max ((\<lambda>p. length (h ! snd p)) ` set c)"
  let ?H = "foldl (pad_pair ?mi ?mo (self_PAD_TOKEN self)) h c"
  have bt: "build_tensor self h c = (?H, Inr (batch_value self h c))"
    using build_tensor_eq[OF ne vc dc, of self] by (simp add: batch_value_def)
  have vr': "list_all (\<lambda>p. fst p < length ?H \<and> snd p < length ?H) ?rest"
    using vr by simp
  from Cons.IH[OF dr vr' nes, of "y @ [batch_value self h c]"] obtain h' where
    ih: "materialize self ?H cs (y @ [batch_value self h c]) =
        ((y @ [batch_value self h c]) @ map (batch_value self ?H) cs, h', None)"
    by blast
  have same: "?H ! r = h ! r" if "r \<in> set (map fst ?rest) \<union> set (map snd ?rest)" for r
  proof -
    from that vr have "r < length h" by (auto simp: list_all_iff)
    moreover from that sep have "r \<notin> set (map fst c)" "r \<notin> set (map snd c)" by auto
    ultimately show ?thesis by (simp add: foldl_pad_pair_nth[OF dc])
  qed
  have "batch_value self ?H c' = batch_value self h c'" if c': "c' \<in> set cs" for c'
  proof (rule batch_value_cong, rule ballI)
    fix p assume "p \<in> set c'"
    with c' have "fst p \<in> set (map fst ?rest)" "snd p \<in> set (map snd ?rest)" by auto
    then show "?H ! fst p = h ! fst p \<and> ?H ! snd p = h ! snd p"
      using same by simp
  qed
  then have "map (batch_value self ?H) cs = map (batch_value self h) cs" by simp
  with ih bt show ?case by simp
qed

lemma distinct_zip_prefix:
  assumes "distinct (xs @ ys)"
  shows "distinct (map fst (take m (zip xs ys)) @ map snd (take m (zip xs ys)))"
proof -
  have f: "map fst (take m (zip xs ys)) = take m (take (min (length xs) (length ys)) xs)"
    by (simp add: take_map[symmetric] map_fst_zip_take)
  have s: "map snd (take m (zip xs ys)) = take m (take (min (length xs) (length ys)) ys)"
    by (simp add: take_map[symmetric] map_snd_zip_take)
  have "distinct (take m (take (min (length xs) (length ys)) xs))"
       "distinct (take m (take (min (length xs) (length ys)) ys))"
    using assms by simp_all
  moreover have "set (take m (take (min (length xs) (length ys)) xs)) \<subseteq> set xs"
      "set (take m (take (min (length xs) (length ys)) ys)) \<subseteq> set ys"
    by (meson set_take_subset subset_trans)+
  moreover have "set xs \<inter> set ys = {}" using assms by simp
  ultimately show ?thesis unfolding f s by (simp only: distinct_append) blast
qed

subsection \<open>The pad token the loader uses\<close>

lemma build_tensor_pad_only:
  "self_PAD_TOKEN self' = self_PAD_TOKEN self \<Longrightarrow>
     build_tensor self' h ps = build_tensor self h ps"
  by (simp add: build_tensor_def)

lemma iter_loop_output_pad:
  "iter_loop (self\<lparr>output_vocab := (output_vocab self)\<lparr>PAD_TOKEN := p\<rparr>\<rparr>) idxs b c h y =
     iter_loop self idxs b c h y"
proof (induction idxs arbitrary: b c h y)
  case Nil
  then show ?case by simp
next
  case (Cons i rest)
  have bt: "build_tensor (self\<lparr>output_vocab := (output_vocab self)\<lparr>PAD_TOKEN := p\<rparr>\<rparr>) h' ps =
      build_tensor self h' ps" for h' ps
    by (rule build_tensor_pad_only) simp
  show ?case
    by (simp add: Cons.IH bt Let_def split: prod.splits sum.splits)
qed

lemma deepcopy_pad:
  "deepcopy (v\<lparr>PAD_TOKEN := p\<rparr>) h =
     (case deepcopy v h of (v', h') \<Rightarrow> (v'\<lparr>PAD_TOKEN := p\<rparr>, h'))"
  by (simp add: deepcopy_def split: prod.splits)

lemma shuffle_vocab_data_output_pad:
  "shuffle_vocab_data np g seed iv (ov\<lparr>PAD_TOKEN := p\<rparr>) =
     (case shuffle_vocab_data np g seed iv ov of
        Inl e \<Rightarrow> Inl e
      | Inr (iv', ov', g') \<Rightarrow> Inr (iv', ov'\<lparr>PAD_TOKEN := p\<rparr>, g'))"
  by (simp add: shuffle_vocab_data_def split: option.splits prod.splits)

lemma init_output_pad_eq:
  "SmartDataLoader_init np w in_vocab (out_vocab\<lparr>PAD_TOKEN := p\<rparr>) bsize in_docs out_docs seed =
     map_sum id (\<lambda>(self, h, g). (self\<lparr>output_vocab := (output_vocab self)\<lparr>PAD_TOKEN := p\<rparr>\<rparr>, h, g))
       (SmartDataLoader_init np w in_vocab out_vocab bsize in_docs out_docs seed)"
proof (cases "in_docs \<noteq> None \<and> out_docs \<noteq> None")
  case True
  have u: "v\<lparr>PAD_TOKEN := p, docs_tokens_encoded := x\<rparr> =
      (v\<lparr>docs_tokens_encoded := x\<rparr>)\<lparr>PAD_TOKEN := p\<rparr>" for v :: Vocabulary and x
    by simp
  from True show ?thesis
    by (simp add: SmartDataLoader_init_def deepcopy_pad u shuffle_vocab_data_output_pad
        del: Vocabulary.update_convs
        split: prod.splits sum.splits)
next
  case False
  then have c: "(in_docs \<noteq> None \<and> out_docs \<noteq> None) = False" by simp
  show ?thesis
    unfolding SmartDataLoader_init_def c if_False Let_def
    by (simp add: deepcopy_pad shuffle_vocab_data_output_pad split: prod.splits sum.splits)
qed

lemma init_output_pad:
  assumes "SmartDataLoader_init np w in_vocab out_vocab bsize in_docs out_docs seed = Inr (self, h, g)"
  shows "SmartDataLoader_init np w in_vocab (out_vocab\<lparr>PAD_TOKEN := p\<rparr>) bsize in_docs out_docs seed =
           Inr (self\<lparr>output_vocab := (output_vocab self)\<lparr>PAD_TOKEN := p\<rparr>\<rparr>, h, g)"
  by (simp add: init_output_pad_eq assms)

lemma padded_closed_form:
  "padded m pad xs =
     (if xs = [] then replicate m pad
      else butlast xs @ replicate (m - length xs) pad @ [last xs])"
  by (simp add: padded_def insert_funpow)

lemma batch_tensor_column:
  assumes "j < length docs" and "length (docs ! j) \<le> m"
  shows "map (\<lambda>row. row ! j) (entries (batch_tensor m pad docs)) = padded m pad (docs ! j)"
proof -
  have l: "length (padded m pad (docs ! j)) = m"
    using assms(2) by (simp add: length_padded)
  have "map (\<lambda>row. row ! j) (entries (batch_tensor m pad docs)) =
      map (\<lambda>i. padded m pad (docs ! j) ! i) [0..<m]"
    using assms(1) by (simp add: batch_tensor_def)
  also have "\<dots> = padded m pad (docs ! j)"
    using map_nth[of "padded m pad (docs ! j)"] l by simp
  finally show ?thesis .
qed

subsection \<open>Iteration over a constructed loader\<close>

lemma init_succeeds_general:
  assumes perm: "\<forall>g xs. mset (fst (np_shuffle np g xs)) = mset xs"
    and seed: "np_seed np seed \<noteq> None"
    and ne: "if in_docs \<noteq> None \<and> out_docs \<noteq> None
             then the in_docs \<noteq> [] \<and> the out_docs \<noteq> []
             else docs_tokens_encoded iv \<noteq> [] \<and> docs_tokens_encoded ov \<noteq> []"
  shows "\<exists>self h g. SmartDataLoader_init np w iv ov bs in_docs out_docs seed = Inr (self, h, g)"
proof -
  obtain iv0 h1 where d1: "deepcopy iv (fst w) = (iv0, h1)" by (cases "deepcopy iv (fst w)")
  obtain ov0 h2 where d2: "deepcopy ov h1 = (ov0, h2)" by (cases "deepcopy ov h1")
  let ?iv = "if in_docs \<noteq> None \<and> out_docs \<noteq> None
             then iv0\<lparr>docs_tokens_encoded := the in_docs\<rparr> else iv0"
  let ?ov = "if in_docs \<noteq> None \<and> out_docs \<noteq> None
             then ov0\<lparr>docs_tokens_encoded := the out_docs\<rparr> else ov0"
  have "docs_tokens_encoded ?iv \<noteq> []" "docs_tokens_encoded ?ov \<noteq> []"
    using deepcopy_range[OF d1] deepcopy_range[OF d2] ne by (auto split: if_splits)
  from shuffle_vocab_data_succeeds[OF perm seed this, of "snd w"]
  obtain r where r: "shuffle_vocab_data np (snd w) seed ?iv ?ov = Inr r" by blast
  obtain iv' ov' g' where "r = (iv', ov', g')" by (cases r)
  with r d1 d2 show ?thesis
    by (simp add: SmartDataLoader_init_def Let_def)
qed

lemma constructed_loader_batches:
  assumes perm: "\<forall>g xs. mset (fst (np_shuffle np g xs)) = mset xs"
    and init: "SmartDataLoader_init np w in_vocab out_vocab bsize in_docs out_docs seed =
                 Inr (self, h, g)"
    and n: "length (docs_tokens_encoded in_vocab) = N"
    and corpus:
      "if in_docs \<noteq> None \<and> out_docs \<noteq> None
       then length (the in_docs) = N \<and> length (the out_docs) = N
          \<and> list_all (\<lambda>r. r < length (fst w)) (the in_docs @ the out_docs)
          \<and> set (the in_docs) \<inter> set (the out_docs) = {}
       else length (docs_tokens_encoded out_vocab) = N"
    and bs: "1 \<le> bsize"
  shows "SmartDataLoader_iter self h =
           materialize self h
             (full_batches (nat bsize)
                (zip (docs_tokens_encoded (input_vocab self))
                     (docs_tokens_encoded (output_vocab self)))) []
       \<and> length (zip (docs_tokens_encoded (input_vocab self))
                      (docs_tokens_encoded (output_vocab self))) = N
       \<and> concat (full_batches (nat bsize)
                (zip (docs_tokens_encoded (input_vocab self))
                     (docs_tokens_encoded (output_vocab self)))) =
           take (N div nat bsize * nat bsize)
                (zip (docs_tokens_encoded (input_vocab self))
                     (docs_tokens_encoded (output_vocab self)))
       \<and> (\<exists>ys h'. SmartDataLoader_iter self h = (ys, h', None)
                  \<and> int (length ys) = int N div bsize)
       \<and> SmartDataLoader_len self = Inr (int N div bsize)"
proof -
  let ?ins = "docs_tokens_encoded (input_vocab self)"
  let ?outs = "docs_tokens_encoded (output_vocab self)"
  have loader: "batch_size self = bsize \<and> n_sentences self = N
      \<and> length ?ins = N \<and> length ?outs = N
      \<and> list_all (\<lambda>r. r < length h) ?ins \<and> list_all (\<lambda>r. r < length h) ?outs
      \<and> set ?ins \<inter> set ?outs = {}"
  proof (cases "in_docs \<noteq> None \<and> out_docs \<noteq> None")
    case True
    then obtain i o' where io: "in_docs = Some i" "out_docs = Some o'" by auto
    from corpus True io have c: "length i = N" "length o' = N"
        "list_all (\<lambda>r. r < length (fst w)) (i @ o')" "set i \<inter> set o' = {}"
      by simp_all
    note r = init_override[OF perm init[unfolded io]]
    from r have sub: "set ?ins \<subseteq> set i" "set ?outs \<subseteq> set o'"
      and hl: "length (fst w) \<le> length h" by simp_all
    have "r < length h" if "r \<in> set i \<union> set o'" for r
    proof -
      from that c(3) have "r < length (fst w)" by (auto simp: list_all_iff)
      with hl show ?thesis by simp
    qed
    with sub have "list_all (\<lambda>r. r < length h) ?ins" "list_all (\<lambda>r. r < length h) ?outs"
      unfolding list_all_iff by blast+
    moreover have "set ?ins \<inter> set ?outs = {}" using sub c(4) by blast
    ultimately show ?thesis using r c n by simp
  next
    case False
    then have "in_docs = None \<or> out_docs = None" by simp
    with corpus False have o: "length (docs_tokens_encoded out_vocab) = N" by simp
    have "SmartDataLoader_init np w in_vocab out_vocab bsize None None seed =
        Inr (self\<lparr>input_docs_tokens_encoded := None, output_docs_tokens_encoded := None\<rparr>, h, g)"
      using init False
      by (auto simp: SmartDataLoader_init_def Let_def split: prod.splits sum.splits)
    from init_no_override[OF perm this] show ?thesis using n o by simp
  qed
  then have b: "batch_size self = int (nat bsize)" "0 < nat bsize" using bs by simp_all
  have nn: "n_sentences self = N" "length ?ins = N" "length ?outs = N"
    using loader by simp_all
  have le: "n_sentences self \<le> length ?ins" "n_sentences self \<le> length ?outs"
    using nn by simp_all
  have v: "list_all (\<lambda>r. r < length h) ?ins" "list_all (\<lambda>r. r < length h) ?outs"
      "set ?ins \<inter> set ?outs = {}"
    using loader by simp_all
  have t: "take (n_sentences self) (zip ?ins ?outs) = zip ?ins ?outs"
    using nn by simp
  have 1: "SmartDataLoader_iter self h =
      materialize self h (full_batches (nat bsize) (zip ?ins ?outs)) []"
    using iter_as_batches[OF b le, of h] t by simp
  have 2: "length (zip ?ins ?outs) = N" using nn by simp
  have 3: "concat (full_batches (nat bsize) (zip ?ins ?outs)) =
      take (N div nat bsize * nat bsize) (zip ?ins ?outs)"
    using concat_full_batches[of "nat bsize" "zip ?ins ?outs"] 2 by simp
  from iter_succeeds[OF b le v] obtain ys h' where
    it: "SmartDataLoader_iter self h = (ys, h', None)" "length ys = N div nat bsize"
    using nn by auto
  have d: "int (N div nat bsize) = int N div bsize"
    using bs by (simp add: zdiv_int)
  have 4: "\<exists>ys h'. SmartDataLoader_iter self h = (ys, h', None)
      \<and> int (length ys) = int N div bsize"
    using it d by auto
  have 5: "SmartDataLoader_len self = Inr (int N div bsize)"
    using loader bs by (simp add: SmartDataLoader_len_def)
  from 1 2 3 4 5 show ?thesis by blast
qed

subsection \<open>Loaders constructed from lists that are not shared\<close>

lemma upt_shift: "[n ..< n + Suc k] = n # [Suc n ..< Suc n + k]"
proof -
  have "n < n + Suc k" by simp
  then have "[n ..< n + Suc k] = n # [Suc n ..< n + Suc k]" by (rule upt_conv_Cons)
  then show ?thesis by (simp del: upt_Suc)
qed

lemma deepcopy_docs_distinct:
  assumes "distinct rs" and "set rs \<inter> fst ` set memo = {}"
  shows "fst (deepcopy_docs memo h rs) = [length h ..< length h + length rs]"
  using assms
proof (induction rs arbitrary: memo h)
  case Nil
  then show ?case by simp
next
  case (Cons r rs)
  from Cons.prems have none: "map_of memo r = None"
    by (simp add: map_of_eq_None_iff)
  from Cons.prems have d: "distinct rs"
    and m: "set rs \<inter> fst ` set ((r, length h) # memo) = {}"
    by auto
  obtain rs1 h1 where rec: "deepcopy_docs ((r, length h) # memo) (h @ [h ! r]) rs = (rs1, h1)"
    by (cases "deepcopy_docs ((r, length h) # memo) (h @ [h ! r]) rs")
  have "rs1 = [Suc (length h) ..< Suc (length h) + length rs]"
    using Cons.IH[OF d m, of "h @ [h ! r]"] rec by simp
  moreover have "[length h ..< length h + length (r # rs)] =
      length h # [Suc (length h) ..< Suc (length h) + length rs]"
    using upt_shift[of "length h" "length rs"] by (simp del: upt_Suc)
  ultimately show ?case
    using none rec by (simp del: upt_Suc)
qed

lemma deepcopy_distinct:
  assumes "deepcopy v h = (v', h')" and "distinct (docs_tokens_encoded v)"
  shows "distinct (docs_tokens_encoded v')"
proof -
  have "docs_tokens_encoded v' = fst (deepcopy_docs [] h (docs_tokens_encoded v))"
    using assms(1) by (auto simp: deepcopy_def split: prod.splits)
  then show ?thesis
    using deepcopy_docs_distinct[OF assms(2), of "[]" h] by simp
qed

lemma shuffle_vocab_data_distinct:
  assumes perm: "\<forall>g xs. mset (fst (np_shuffle np g xs)) = mset xs"
    and s: "shuffle_vocab_data np g seed iv ov = Inr (iv', ov', g')"
    and d: "distinct (docs_tokens_encoded iv @ docs_tokens_encoded ov)"
  shows "distinct (docs_tokens_encoded iv' @ docs_tokens_encoded ov')"
proof -
  let ?z0 = "zip (docs_tokens_encoded iv) (docs_tokens_encoded ov)"
  let ?zi = "zip (docs_tokens_encoded iv') (docs_tokens_encoded ov')"
  note sh = shuffle_vocab_data_Inr[OF perm s]
  note r = shuffle_vocab_data_refs[OF perm s]
  have leq: "length (docs_tokens_encoded iv') = length (docs_tokens_encoded ov')"
    using sh by simp
  have m: "mset ?zi = mset ?z0" using sh by simp
  have fi: "map fst ?zi = docs_tokens_encoded iv'" and si: "map snd ?zi = docs_tokens_encoded ov'"
    using leq by simp_all
  have "mset (map fst ?zi) = mset (map fst ?z0)" "mset (map snd ?zi) = mset (map snd ?z0)"
    using m by (metis mset_map)+
  then have mi: "mset (docs_tokens_encoded iv') = mset (map fst ?z0)"
    and mo: "mset (docs_tokens_encoded ov') = mset (map snd ?z0)"
    using fi si by simp_all
  have "distinct (map fst ?z0)" "distinct (map snd ?z0)"
    using d by (simp_all add: map_fst_zip_take map_snd_zip_take)
  then have "distinct (docs_tokens_encoded iv')" "distinct (docs_tokens_encoded ov')"
    using mi mo by (metis mset_eq_imp_distinct_iff)+
  moreover have "set (docs_tokens_encoded iv') \<inter> set (docs_tokens_encoded ov') = {}"
    using r d by auto
  ultimately show ?thesis by simp
qed

lemma init_own_lists:
  assumes perm: "\<forall>g xs. mset (fst (np_shuffle np g xs)) = mset xs"
    and init: "SmartDataLoader_init np w in_vocab out_vocab bsize in_docs out_docs seed =
                 Inr (self, h, g)"
    and own:
      "if in_docs \<noteq> None \<and> out_docs \<noteq> None
       then distinct (the in_docs @ the out_docs)
          \<and> list_all (\<lambda>r. r < length (fst w)) (the in_docs @ the out_docs)
       else distinct (docs_tokens_encoded in_vocab) \<and> distinct (docs_tokens_encoded out_vocab)"
  shows "batch_size self = bsize
       \<and> distinct (docs_tokens_encoded (input_vocab self) @
                    docs_tokens_encoded (output_vocab self))
       \<and> list_all (\<lambda>r. r < length h) (docs_tokens_encoded (input_vocab self))
       \<and> list_all (\<lambda>r. r < length h) (docs_tokens_encoded (output_vocab self))"
proof -
  let ?ins = "docs_tokens_encoded (input_vocab self)"
  let ?outs = "docs_tokens_encoded (output_vocab self)"
  obtain iv0 h1 where d1: "deepcopy in_vocab (fst w) = (iv0, h1)"
    by (cases "deepcopy in_vocab (fst w)")
  obtain ov0 h2 where d2: "deepcopy out_vocab h1 = (ov0, h2)" by (cases "deepcopy out_vocab h1")
  let ?iv = "if in_docs \<noteq> None \<and> out_docs \<noteq> None
             then iv0\<lparr>docs_tokens_encoded := the in_docs\<rparr> else iv0"
  let ?ov = "if in_docs \<noteq> None \<and> out_docs \<noteq> None
             then ov0\<lparr>docs_tokens_encoded := the out_docs\<rparr> else ov0"
  from init d1 d2 obtain iv' ov' where
    sv: "shuffle_vocab_data np (snd w) seed ?iv ?ov = Inr (iv', ov', g)"
    and self: "input_vocab self = iv'" "output_vocab self = ov'" "batch_size self = bsize"
    and h: "h = h2"
    by (auto simp: SmartDataLoader_init_def Let_def split: sum.splits)
  note r1 = deepcopy_range[OF d1] and r2 = deepcopy_range[OF d2]
  have hl: "length (fst w) \<le> length h" using r1 r2 h by simp
  have before: "distinct (docs_tokens_encoded ?iv @ docs_tokens_encoded ?ov)
      \<and> list_all (\<lambda>r. r < length h) (docs_tokens_encoded ?iv @ docs_tokens_encoded ?ov)"
  proof (cases "in_docs \<noteq> None \<and> out_docs \<noteq> None")
    case True
    with own have d: "distinct (the in_docs @ the out_docs)"
      and v: "list_all (\<lambda>r. r < length (fst w)) (the in_docs @ the out_docs)"
      by simp_all
    have v': "list_all (\<lambda>r. r < length h) (the in_docs @ the out_docs)"
      using v hl unfolding list_all_iff by fastforce
    have e: "docs_tokens_encoded ?iv = the in_docs" "docs_tokens_encoded ?ov = the out_docs"
      using True by simp_all
    show ?thesis unfolding e using d v' by (rule conjI)
  next
    case False
    with own have d: "distinct (docs_tokens_encoded in_vocab)"
        "distinct (docs_tokens_encoded out_vocab)"
      by simp_all
    have di: "distinct (docs_tokens_encoded iv0)" and do: "distinct (docs_tokens_encoded ov0)"
      using deepcopy_distinct[OF d1 d(1)] deepcopy_distinct[OF d2 d(2)] by simp_all
    have vi: "\<forall>r \<in> set (docs_tokens_encoded iv0). r < length h1"
      and vo: "\<forall>r \<in> set (docs_tokens_encoded ov0). length h1 \<le> r \<and> r < length h2"
      using r1 r2 by simp_all
    have sep: "set (docs_tokens_encoded iv0) \<inter> set (docs_tokens_encoded ov0) = {}"
      using vi vo by fastforce
    have "length h1 \<le> length h2" using r2 by simp
    with vi vo have v': "list_all (\<lambda>r. r < length h)
        (docs_tokens_encoded iv0 @ docs_tokens_encoded ov0)"
      unfolding list_all_iff h by fastforce
    have d': "distinct (docs_tokens_encoded iv0 @ docs_tokens_encoded ov0)"
      using di do sep by simp
    have e: "?iv = iv0" "?ov = ov0"
      using False by auto
    show ?thesis unfolding e using d' v' by (rule conjI)
  qed
  then have d0: "distinct (docs_tokens_encoded ?iv @ docs_tokens_encoded ?ov)"
    and v0: "list_all (\<lambda>r. r < length h) (docs_tokens_encoded ?iv @ docs_tokens_encoded ?ov)"
    by simp_all
  have dist: "distinct (?ins @ ?outs)"
    using shuffle_vocab_data_distinct[OF perm sv d0] self by simp
  note r = shuffle_vocab_data_refs[OF perm sv]
  have "set ?ins \<subseteq> set (docs_tokens_encoded ?iv)" "set ?outs \<subseteq> set (docs_tokens_encoded ?ov)"
    using r self by simp_all
  then have "list_all (\<lambda>r. r < length h) ?ins" "list_all (\<lambda>r. r < length h) ?outs"
    using v0 unfolding list_all_iff by auto
  with dist self(3) show ?thesis by simp
qed

lemma iter_loop_n_sentences:
  "iter_loop (self\<lparr>n_sentences := n\<rparr>) idxs b c h y = iter_loop self idxs b c h y"
proof (induction idxs arbitrary: b c h y)
  case Nil
  then show ?case by simp
next
  case (Cons i rest)
  have bt: "build_tensor (self\<lparr>n_sentences := n\<rparr>) h' ps = build_tensor self h' ps" for h' ps
    by (rule build_tensor_pad_only) simp
  show ?case
    by (simp add: Cons.IH bt Let_def split: prod.splits sum.splits)
qed

lemma iter_loop_out_of_range:
  assumes "\<forall>i \<in> set idxs. i < length (docs_tokens_encoded (input_vocab self)) \<and>
                          i < length (docs_tokens_encoded (output_vocab self))"
    and "\<not> (i < length (docs_tokens_encoded (input_vocab self)) \<and>
             i < length (docs_tokens_encoded (output_vocab self)))"
  shows "fst (iter_loop self (idxs @ i # rest) b c h y) = fst (iter_loop self idxs b c h y)"
  using assms(1)
proof (induction idxs arbitrary: b c h y)
  case Nil
  have "iter_loop self (i # rest) b c h y = (y, h, Some IndexError)"
    by (simp only: iter_loop.simps assms(2) if_False)
  then show ?case by simp
next
  case (Cons j js)
  then have IH: "fst (iter_loop self (js @ i # rest) b' c' h' y') =
      fst (iter_loop self js b' c' h' y')" for b' c' h' y'
    by simp
  from Cons.prems have j: "j < length (docs_tokens_encoded (input_vocab self))"
      "j < length (docs_tokens_encoded (output_vocab self))"
    by simp_all
  show ?case
    using j by (simp add: IH Let_def split: prod.splits sum.splits)
qed

lemma iter_truncated:
  "fst (SmartDataLoader_iter self h) =
     fst (SmartDataLoader_iter
            (self\<lparr>n_sentences :=
                     min (n_sentences self)
                       (min (length (docs_tokens_encoded (input_vocab self)))
                            (length (docs_tokens_encoded (output_vocab self))))\<rparr>) h)"
proof -
  let ?l = "min (length (docs_tokens_encoded (input_vocab self)))
                (length (docs_tokens_encoded (output_vocab self)))"
  let ?n = "n_sentences self"
  show ?thesis
  proof (cases "?n \<le> ?l")
    case True
    then have "min ?n ?l = ?n" by simp
    then show ?thesis
      by (simp add: SmartDataLoader_iter_def iter_loop_n_sentences)
  next
    case False
    then have lt: "?l < ?n" by (simp only: not_le)
    have "[0..<?l + (?n - ?l)] = [0..<?l] @ [?l..<?l + (?n - ?l)]"
      by (rule upt_add_eq_append) simp
    moreover have "?l + (?n - ?l) = ?n" using lt by simp
    moreover have "[?l..<?n] = ?l # [Suc ?l..<?n]" using lt by (rule upt_conv_Cons)
    ultimately have split: "[0..<?n] = [0..<?l] @ ?l # [Suc ?l..<?n]"
      by (simp only:)
    have inr: "\<forall>i \<in> set [0..<?l]. i < length (docs_tokens_encoded (input_vocab self)) \<and>
                          i < length (docs_tokens_encoded (output_vocab self))"
      by auto
    have out: "\<not> (?l < length (docs_tokens_encoded (input_vocab self)) \<and>
             ?l < length (docs_tokens_encoded (output_vocab self)))"
      by auto
    have "fst (iter_loop self [0..<?n] 0 [] h []) = fst (iter_loop self [0..<?l] 0 [] h [])"
      unfolding split by (rule iter_loop_out_of_range[OF inr out])
    moreover have "min ?n ?l = ?l" using lt by simp
    ultimately show ?thesis
      by (simp add: SmartDataLoader_iter_def iter_loop_n_sentences)
  qed
qed

lemma batch_shapes_loader:
  assumes bs: "batch_size self = int bs" "0 < bs"
    and n: "n_sentences self \<le> length (docs_tokens_encoded (input_vocab self))"
           "n_sentences self \<le> length (docs_tokens_encoded (output_vocab self))"
    and valid: "list_all (\<lambda>r. r < length h) (docs_tokens_encoded (input_vocab self))"
               "list_all (\<lambda>r. r < length h) (docs_tokens_encoded (output_vocab self))"
    and dist: "distinct (docs_tokens_encoded (input_vocab self) @
                         docs_tokens_encoded (output_vocab self))"
    and it: "SmartDataLoader_iter self h = (ys, h', e)"
    and k: "k < length ys"
  shows "shape (fst (ys ! k)) =
           [Max ((\<lambda>i. length (h ! (docs_tokens_encoded (input_vocab self) ! i)))
                   ` {k * bs ..< k * bs + bs}), bs]
       \<and> shape (snd (ys ! k)) =
           [Max ((\<lambda>i. length (h ! (docs_tokens_encoded (output_vocab self) ! i)))
                   ` {k * bs ..< k * bs + bs}), bs]"
proof -
  let ?ins = "docs_tokens_encoded (input_vocab self)"
  let ?outs = "docs_tokens_encoded (output_vocab self)"
  let ?n = "n_sentences self"
  let ?ps = "take ?n (zip ?ins ?outs)"
  let ?chunks = "full_batches bs ?ps"
  have lps: "length ?ps = ?n" using n by simp
  have cc: "concat ?chunks = take (?n div bs * bs) (zip ?ins ?outs)"
    using concat_full_batches[of bs ?ps] lps by (simp add: min_absorb1 div_times_less_eq_dividend)
  have d: "distinct (map fst (concat ?chunks) @ map snd (concat ?chunks))"
    unfolding cc by (rule distinct_zip_prefix[OF dist])
  have v: "list_all (\<lambda>p. fst p < length h \<and> snd p < length h) (concat ?chunks)"
  proof -
    have "fst p < length h \<and> snd p < length h" if "p \<in> set (concat ?chunks)" for p
    proof -
      obtain a b where p: "p = (a, b)" by (cases p)
      from that have "(a, b) \<in> set (zip ?ins ?outs)"
        unfolding cc p by (rule in_set_takeD)
      then have "a \<in> set ?ins" "b \<in> set ?outs"
        by (rule set_zip_leftD, rule set_zip_rightD)
      then show ?thesis using valid by (simp add: p list_all_iff)
    qed
    then show ?thesis by (simp only: list_all_iff) blast
  qed
  have ne: "\<forall>c \<in> set ?chunks. c \<noteq> []"
    using full_batches_chunk by blast
  from materialize_distinct[OF d v ne, of self "[]"] obtain h1 where
    "materialize self h ?chunks [] = (map (batch_value self h) ?chunks, h1, None)"
    by auto
  with it iter_as_batches[OF bs n, of h] have ys: "ys = map (batch_value self h) ?chunks"
    by simp
  have lch: "length ?chunks = ?n div bs"
    by (simp only: length_full_batches lps)
  have kc: "k < ?n div bs" using k unfolding ys length_map lch .
  then have "Suc k \<le> ?n div bs" by simp
  then have "Suc k * bs \<le> ?n"
    using bs(2) by (simp only: less_eq_div_iff_mult_less_eq)
  then have le: "k * bs + bs \<le> length ?ps" using lps by (simp add: add.commute)
  let ?c = "take bs (drop (k * bs) ?ps)"
  have ck: "?chunks ! k = ?c"
    using kc lps by (simp only: nth_full_batches)
  have yk: "ys ! k = batch_value self h ?c"
    using ys k ck by simp
  have c_eq: "?c = map (\<lambda>i. (?ins ! i, ?outs ! i)) [k * bs ..< k * bs + bs]"
  proof -
    have "?c = map (\<lambda>i. ?ps ! i) [k * bs ..< k * bs + bs]"
      by (rule take_drop_map_nth[OF le])
    also have "\<dots> = map (\<lambda>i. (?ins ! i, ?outs ! i)) [k * bs ..< k * bs + bs]"
      using le lps n by (intro map_cong) auto
    finally show ?thesis .
  qed
  have lc: "length ?c = bs" unfolding c_eq by simp
  have si: "(\<lambda>p. length (h ! fst p)) ` set ?c =
      (\<lambda>i. length (h ! (?ins ! i))) ` {k * bs ..< k * bs + bs}"
    unfolding c_eq by (simp add: image_image)
  have so: "(\<lambda>p. length (h ! snd p)) ` set ?c =
      (\<lambda>i. length (h ! (?outs ! i))) ` {k * bs ..< k * bs + bs}"
    unfolding c_eq by (simp add: image_image)
  have "shape (fst (batch_value self h ?c)) = [Max ((\<lambda>p. length (h ! fst p)) ` set ?c), length ?c]"
       "shape (snd (batch_value self h ?c)) = [Max ((\<lambda>p. length (h ! snd p)) ` set ?c), length ?c]"
    by (simp_all add: batch_value_def batch_tensor_def)
  then show ?thesis
    unfolding yk si so lc by simp
qed

section \<open>The claims\<close>

subsection \<open>Padding\<close>

text \<open>
  Claim C1 says that a padded sequence is the original sequence followed by the pad tokens.
  The padding loop calls \<open>insert(-1, PAD_TOKEN)\<close>, which puts each pad token before the
  last element.  In a batch of the input lists \<open>[5, 6, 7]\<close> and \<open>[8, 9]\<close> with pad token
  \<open>0\<close>, the second list becomes \<open>[8, 0, 9]\<close>, not \<open>[8, 9, 0]\<close>: the position beyond its
  original length holds the token \<open>9\<close>, and the emitted column is \<open>8, 0, 9\<close>.
\<close>

theorem pad_lands_before_last_token:
  "build_tensor (self\<lparr>self_PAD_TOKEN := 0\<rparr>) [[5, 6, 7], [8, 9], [1], [2]] [(0, 2), (1, 3)] =
     ([[5, 6, 7], [8, 0, 9], [1], [2]],
      Inr (\<lparr>shape = [3, 2], entries = [[5, 8], [6, 0], [7, 9]]\<rparr>,
           \<lparr>shape = [1, 2], entries = [[1, 2]]\<rparr>))"
  by (simp add: build_tensor_def list_insert_def np_array_def np_transpose_def torch_tensor_def
      upt_rec)

subsection \<open>Determinism\<close>


subsection \<open>The empty corpus\<close>

text \<open>
  Claim C6 says that an empty corpus is constructed without error.  With no sentences the
  shuffled list is empty, \<open>zip(*joined_docs_tokens_encoded)\<close> yields nothing, and the
  assignment to two targets in \<open>_shuffle_vocab_data\<close> raises ValueError: construction fails.
\<close>

theorem empty_corpus_construction_raises:
  "SmartDataLoader_init demo_random ([], 0)
     \<lparr>docs_tokens_encoded = [], PAD_TOKEN = 0\<rparr> \<lparr>docs_tokens_encoded = [], PAD_TOKEN = 0\<rparr>
     1 None None 0 = Inl ValueError"
  by (simp add: SmartDataLoader_init_def deepcopy_def shuffle_vocab_data_def demo_random_def)

subsection \<open>The batch size is not checked\<close>

text \<open>
  Claim C7 says that construction fails for a batch size \<open>\<le> 0\<close>.  The constructor stores
  the batch size without looking at it: with batch size \<open>0\<close> and one sentence pair it
  returns a loader.
\<close>

theorem zero_batch_size_accepted:
  "SmartDataLoader_init demo_random ([[1], [2]], 0)
     \<lparr>docs_tokens_encoded = [0], PAD_TOKEN = 0\<rparr> \<lparr>docs_tokens_encoded = [1], PAD_TOKEN = 0\<rparr>
     0 None None 0 =
   Inr (\<lparr>input_vocab = \<lparr>docs_tokens_encoded = [2], PAD_TOKEN = 0\<rparr>,
         output_vocab = \<lparr>docs_tokens_encoded = [3], PAD_TOKEN = 0\<rparr>,
         batch_size = 0, input_docs_tokens_encoded = None,
         output_docs_tokens_encoded = None, random_seed = 0,
         n_sentences = 1, self_PAD_TOKEN = 0\<rparr>,
        [[1], [2], [1], [2]], 1)"
  by (simp add: SmartDataLoader_init_def deepcopy_def shuffle_vocab_data_def demo_random_def)

text \<open>
  Claim C7 as amended.  For a batch size \<open>\<le> 0\<close> construction does what it does for batch
  size \<open>1\<close>, except for the batch size it stores; iterating a loader with such a batch
  size yields no batch and leaves the heap as it was (the counter never equals the batch
  size, and the loop ends with the sentences); \<open>__len__\<close> raises ZeroDivisionError for
  batch size \<open>0\<close> and returns the floor quotient for a negative one.
\<close>

theorem nonpositive_batch_size_not_rejected:
  assumes "bsize \<le> 0" and "batch_size self = bsize"
  shows "SmartDataLoader_init np w in_vocab out_vocab bsize in_docs out_docs seed =
           map_sum id (\<lambda>(l, h', g'). (l\<lparr>batch_size := bsize\<rparr>, h', g'))
             (SmartDataLoader_init np w in_vocab out_vocab 1 in_docs out_docs seed)
       \<and> fst (SmartDataLoader_iter self h) = []
       \<and> fst (snd (SmartDataLoader_iter self h)) = h
       \<and> SmartDataLoader_len self =
           (if bsize = 0 then Inl ZeroDivisionError
            else Inr (int (n_sentences self) div bsize))"
proof -
  have i: "SmartDataLoader_init np w in_vocab out_vocab bsize in_docs out_docs seed =
           map_sum id (\<lambda>(l, h', g'). (l\<lparr>batch_size := bsize\<rparr>, h', g'))
             (SmartDataLoader_init np w in_vocab out_vocab 1 in_docs out_docs seed)"
    by (simp add: SmartDataLoader_init_def split: prod.splits sum.splits)
  from assms have "batch_size self \<le> 0" by simp
  from iter_loop_nonpositive[OF this, of 0 "[0..<n_sentences self]" "[]" h "[]"]
  obtain e where "SmartDataLoader_iter self h = ([], h, e)"
    by (auto simp: SmartDataLoader_iter_def)
  then have it: "fst (SmartDataLoader_iter self h) = []"
      "fst (snd (SmartDataLoader_iter self h)) = h"
    by simp_all
  have l: "SmartDataLoader_len self =
           (if bsize = 0 then Inl ZeroDivisionError
            else Inr (int (n_sentences self) div bsize))"
    using assms(2) by (simp add: SmartDataLoader_len_def)
  from i it l show ?thesis by simp
qed

theorem nonpositive_batch_size_not_rejected_witness:
  "SmartDataLoader_init demo_random ([[1], [2]], 0)
     \<lparr>docs_tokens_encoded = [0], PAD_TOKEN = 0\<rparr> \<lparr>docs_tokens_encoded = [1], PAD_TOKEN = 0\<rparr>
     0 None None 0 =
   map_sum id (\<lambda>(l, h', g'). (l\<lparr>batch_size := 0\<rparr>, h', g'))
     (SmartDataLoader_init demo_random ([[1], [2]], 0)
        \<lparr>docs_tokens_encoded = [0], PAD_TOKEN = 0\<rparr> \<lparr>docs_tokens_encoded = [1], PAD_TOKEN = 0\<rparr>
        1 None None 0)
   \<and> fst (SmartDataLoader_iter
        \<lparr>input_vocab = \<lparr>docs_tokens_encoded = [2], PAD_TOKEN = 0\<rparr>,
         output_vocab = \<lparr>docs_tokens_encoded = [3], PAD_TOKEN = 0\<rparr>,
         batch_size = 0, input_docs_tokens_encoded = None,
         output_docs_tokens_encoded = None, random_seed = 0,
         n_sentences = 1, self_PAD_TOKEN = 0\<rparr> [[1], [2], [1], [2]]) = []
   \<and> SmartDataLoader_len
        \<lparr>input_vocab = \<lparr>docs_tokens_encoded = [2], PAD_TOKEN = 0\<rparr>,
         output_vocab = \<lparr>docs_tokens_encoded = [3], PAD_TOKEN = 0\<rparr>,
         batch_size = 0, input_docs_tokens_encoded = None,
         output_docs_tokens_encoded = None, random_seed = 0,
         n_sentences = 1, self_PAD_TOKEN = 0\<rparr> = Inl ZeroDivisionError"
  using nonpositive_batch_size_not_rejected[of 0
      "\<lparr>input_vocab = \<lparr>docs_tokens_encoded = [2], PAD_TOKEN = 0\<rparr>,
         output_vocab = \<lparr>docs_tokens_encoded = [3], PAD_TOKEN = 0\<rparr>,
         batch_size = 0, input_docs_tokens_encoded = None,
         output_docs_tokens_encoded = None, random_seed = 0,
         n_sentences = 1, self_PAD_TOKEN = 0\<rparr>"
      demo_random "([[1], [2]], 0)"
      "\<lparr>docs_tokens_encoded = [0], PAD_TOKEN = 0\<rparr>" "\<lparr>docs_tokens_encoded = [1], PAD_TOKEN = 0\<rparr>"
      None None 0 "[[1], [2], [1], [2]]"]
  by simp

subsection \<open>Override lists\<close>

text \<open>
  Claim C9 says that with override lists the number of sentences is the length of the
  override lists.  \<open>__init__\<close> installs the overrides in its copies and then reads
  \<open>len(input_vocab.docs_tokens_encoded)\<close> from the caller's vocabulary, not from
  \<open>self.input_vocab\<close>.  With two sentences in the vocabularies and override lists of one
  sentence, \<open>n_sentences\<close> is \<open>2\<close>, \<open>__len__\<close> returns \<open>2\<close>, and iteration yields one
  batch and then raises IndexError at index \<open>1\<close>.
\<close>

theorem override_length_ignored:
  "SmartDataLoader_init demo_random ([[1], [2], [3], [4], [5, 6], [7]], 0)
     \<lparr>docs_tokens_encoded = [0, 1], PAD_TOKEN = 0\<rparr>
     \<lparr>docs_tokens_encoded = [2, 3], PAD_TOKEN = 0\<rparr>
     1 (Some [4]) (Some [5]) 0 =
   Inr (\<lparr>input_vocab = \<lparr>docs_tokens_encoded = [4], PAD_TOKEN = 0\<rparr>,
         output_vocab = \<lparr>docs_tokens_encoded = [5], PAD_TOKEN = 0\<rparr>,
         batch_size = 1, input_docs_tokens_encoded = Some [4],
         output_docs_tokens_encoded = Some [5], random_seed = 0,
         n_sentences = 2, self_PAD_TOKEN = 0\<rparr>,
        [[1], [2], [3], [4], [5, 6], [7], [1], [2], [3], [4]], 1)
   \<and> SmartDataLoader_len
        \<lparr>input_vocab = \<lparr>docs_tokens_encoded = [4], PAD_TOKEN = 0\<rparr>,
         output_vocab = \<lparr>docs_tokens_encoded = [5], PAD_TOKEN = 0\<rparr>,
         batch_size = 1, input_docs_tokens_encoded = Some [4],
         output_docs_tokens_encoded = Some [5], random_seed = 0,
         n_sentences = 2, self_PAD_TOKEN = 0\<rparr> = Inr 2
   \<and> SmartDataLoader_iter
        \<lparr>input_vocab = \<lparr>docs_tokens_encoded = [4], PAD_TOKEN = 0\<rparr>,
         output_vocab = \<lparr>docs_tokens_encoded = [5], PAD_TOKEN = 0\<rparr>,
         batch_size = 1, input_docs_tokens_encoded = Some [4],
         output_docs_tokens_encoded = Some [5], random_seed = 0,
         n_sentences = 2, self_PAD_TOKEN = 0\<rparr>
        [[1], [2], [3], [4], [5, 6], [7], [1], [2], [3], [4]] =
      ([(\<lparr>shape = [2, 1], entries = [[5], [6]]\<rparr>, \<lparr>shape = [1, 1], entries = [[7]]\<rparr>)],
       [[1], [2], [3], [4], [5, 6], [7], [1], [2], [3], [4]], Some IndexError)"
  by (simp add: SmartDataLoader_init_def deepcopy_def shuffle_vocab_data_def demo_random_def
      SmartDataLoader_len_def SmartDataLoader_iter_def build_tensor_def np_array_def
      np_transpose_def torch_tensor_def upt_rec)

text \<open>
  Claim C5 says that the caller's override lists are left unchanged.  The overrides are
  assigned by reference, so the padding loop inserts into the caller's lists: the override
  input list in cell \<open>5\<close>, \<open>[3]\<close> before iteration, is \<open>[0, 3]\<close> after it.  (Cells \<open>0\<close> to \<open>3\<close>
  are the vocabularies' lists, \<open>4\<close> to \<open>7\<close> the override lists, \<open>8\<close> to \<open>11\<close> the copies
  that \<open>deepcopy\<close> made.)
\<close>

theorem override_lists_padded_in_place:
  "SmartDataLoader_init demo_random ([[7], [8], [9], [10], [1, 2], [3], [4], [5]], 0)
     \<lparr>docs_tokens_encoded = [0, 1], PAD_TOKEN = 0\<rparr>
     \<lparr>docs_tokens_encoded = [2, 3], PAD_TOKEN = 0\<rparr>
     2 (Some [4, 5]) (Some [6, 7]) 0 =
   Inr (\<lparr>input_vocab = \<lparr>docs_tokens_encoded = [5, 4], PAD_TOKEN = 0\<rparr>,
         output_vocab = \<lparr>docs_tokens_encoded = [7, 6], PAD_TOKEN = 0\<rparr>,
         batch_size = 2, input_docs_tokens_encoded = Some [4, 5],
         output_docs_tokens_encoded = Some [6, 7], random_seed = 0,
         n_sentences = 2, self_PAD_TOKEN = 0\<rparr>,
        [[7], [8], [9], [10], [1, 2], [3], [4], [5], [7], [8], [9], [10]], 1)
   \<and> SmartDataLoader_iter
        \<lparr>input_vocab = \<lparr>docs_tokens_encoded = [5, 4], PAD_TOKEN = 0\<rparr>,
         output_vocab = \<lparr>docs_tokens_encoded = [7, 6], PAD_TOKEN = 0\<rparr>,
         batch_size = 2, input_docs_tokens_encoded = Some [4, 5],
         output_docs_tokens_encoded = Some [6, 7], random_seed = 0,
         n_sentences = 2, self_PAD_TOKEN = 0\<rparr>
        [[7], [8], [9], [10], [1, 2], [3], [4], [5], [7], [8], [9], [10]] =
      ([(\<lparr>shape = [2, 2], entries = [[0, 1], [3, 2]]\<rparr>,
         \<lparr>shape = [1, 2], entries = [[5, 4]]\<rparr>)],
       [[7], [8], [9], [10], [1, 2], [0, 3], [4], [5], [7], [8], [9], [10]], None)"
  by (simp add: SmartDataLoader_init_def deepcopy_def shuffle_vocab_data_def demo_random_def
      SmartDataLoader_iter_def build_tensor_def np_array_def list_insert_def
      np_transpose_def torch_tensor_def upt_rec)

subsection \<open>Number of batches\<close>

text \<open>
  Claim C2 says that for every corpus of \<open>N\<close> paired sequences and every batch size \<open>\<ge> 1\<close>
  iteration yields \<open>N // batch_size\<close> batches.  It fails for the empty corpus, where
  construction raises ValueError and there is no loader to iterate, and it fails when a
  list is an input and an output sequence at once: with the override lists \<open>[a, b]\<close> given
  for both sides (\<open>a = [1]\<close>, \<open>b = [1, 2, 3]\<close>) and batch size \<open>2\<close>, the list \<open>a\<close> is padded
  twice, \<open>np.array\<close> finds ragged rows, and iteration raises ValueError without yielding the
  one batch.
\<close>

theorem batch_count_fails_on_empty_or_shared_lists:
  "SmartDataLoader_init demo_random ([], 0)
     \<lparr>docs_tokens_encoded = [], PAD_TOKEN = 0\<rparr> \<lparr>docs_tokens_encoded = [], PAD_TOKEN = 0\<rparr>
     2 None None 0 = Inl ValueError
   \<and> SmartDataLoader_init demo_random ([[7], [8], [9], [10], [1], [1, 2, 3]], 0)
       \<lparr>docs_tokens_encoded = [0, 1], PAD_TOKEN = 0\<rparr>
       \<lparr>docs_tokens_encoded = [2, 3], PAD_TOKEN = 0\<rparr>
       2 (Some [4, 5]) (Some [4, 5]) 0 =
     Inr (\<lparr>input_vocab = \<lparr>docs_tokens_encoded = [5, 4], PAD_TOKEN = 0\<rparr>,
         output_vocab = \<lparr>docs_tokens_encoded = [5, 4], PAD_TOKEN = 0\<rparr>,
         batch_size = 2, input_docs_tokens_encoded = Some [4, 5],
         output_docs_tokens_encoded = Some [4, 5], random_seed = 0,
         n_sentences = 2, self_PAD_TOKEN = 0\<rparr>,
          [[7], [8], [9], [10], [1], [1, 2, 3], [7], [8], [9], [10]], 1)
   \<and> SmartDataLoader_iter
        \<lparr>input_vocab = \<lparr>docs_tokens_encoded = [5, 4], PAD_TOKEN = 0\<rparr>,
         output_vocab = \<lparr>docs_tokens_encoded = [5, 4], PAD_TOKEN = 0\<rparr>,
         batch_size = 2, input_docs_tokens_encoded = Some [4, 5],
         output_docs_tokens_encoded = Some [4, 5], random_seed = 0,
         n_sentences = 2, self_PAD_TOKEN = 0\<rparr>
        [[7], [8], [9], [10], [1], [1, 2, 3], [7], [8], [9], [10]] =
      ([], [[7], [8], [9], [10], [0, 0, 0, 0, 1], [1, 2, 3], [7], [8], [9], [10]],
       Some ValueError)"
  by (simp add: SmartDataLoader_init_def deepcopy_def shuffle_vocab_data_def demo_random_def
      SmartDataLoader_iter_def build_tensor_def np_array_def list_insert_def
      np_transpose_def torch_tensor_def upt_rec)

text \<open>
  Claim C2 as amended.  Take a corpus of \<open>N \<ge> 1\<close> paired sequences (the vocabularies'
  sequences, or override lists of the caller's heap with no list on both sides, the input
  vocabulary holding \<open>N\<close> sequences as well), a seed numpy accepts, a batch size \<open>\<ge> 1\<close>
  and a generator whose shuffle permutes its argument.  Construction returns a loader;
  iterating it ends without an exception after exactly \<open>N // batch_size\<close> batches,
  \<open>__len__\<close> returns the same number, and the batches are the contiguous runs of
  \<open>batch_size\<close> pairs of the shuffled corpus, which cover its first
  \<open>(N // batch_size) * batch_size\<close> pairs: the last \<open>N mod batch_size\<close> pairs are in no
  batch.
\<close>

theorem nonempty_corpus_yields_full_batches_only:
  assumes perm: "\<forall>g xs. mset (fst (np_shuffle np g xs)) = mset xs"
    and seed: "np_seed np seed \<noteq> None"
    and n: "length (docs_tokens_encoded in_vocab) = N"
    and corpus:
      "if in_docs \<noteq> None \<and> out_docs \<noteq> None
       then length (the in_docs) = N \<and> length (the out_docs) = N
          \<and> list_all (\<lambda>r. r < length (fst w)) (the in_docs @ the out_docs)
          \<and> set (the in_docs) \<inter> set (the out_docs) = {}
       else length (docs_tokens_encoded out_vocab) = N"
    and pos: "1 \<le> N"
    and bs: "1 \<le> bsize"
  shows "\<exists>self h g.
           SmartDataLoader_init np w in_vocab out_vocab bsize in_docs out_docs seed =
             Inr (self, h, g)
         \<and> SmartDataLoader_iter self h =
             materialize self h
               (full_batches (nat bsize)
                  (zip (docs_tokens_encoded (input_vocab self))
                       (docs_tokens_encoded (output_vocab self)))) []
         \<and> length (zip (docs_tokens_encoded (input_vocab self))
                        (docs_tokens_encoded (output_vocab self))) = N
         \<and> concat (full_batches (nat bsize)
                  (zip (docs_tokens_encoded (input_vocab self))
                       (docs_tokens_encoded (output_vocab self)))) =
             take (N div nat bsize * nat bsize)
                  (zip (docs_tokens_encoded (input_vocab self))
                       (docs_tokens_encoded (output_vocab self)))
         \<and> (\<exists>ys h'. SmartDataLoader_iter self h = (ys, h', None)
                    \<and> int (length ys) = int N div bsize)
         \<and> SmartDataLoader_len self = Inr (int N div bsize)"
proof -
  have ne: "if in_docs \<noteq> None \<and> out_docs \<noteq> None
             then the in_docs \<noteq> [] \<and> the out_docs \<noteq> []
             else docs_tokens_encoded in_vocab \<noteq> [] \<and> docs_tokens_encoded out_vocab \<noteq> []"
    using n corpus pos by (auto split: if_splits)
  from init_succeeds_general[OF perm seed ne, of w bsize] obtain self h g where
    init: "SmartDataLoader_init np w in_vocab out_vocab bsize in_docs out_docs seed =
             Inr (self, h, g)"
    by blast
  from constructed_loader_batches[OF perm init n corpus bs] init show ?thesis
    by blast
qed

theorem nonempty_corpus_yields_full_batches_only_witness:
  "\<exists>self h g.
     SmartDataLoader_init demo_random ([[1, 2], [1, 2, 3], [1], [4, 5], [4], [4, 5, 6]], 7)
       \<lparr>docs_tokens_encoded = [0, 1, 2], PAD_TOKEN = 0\<rparr>
       \<lparr>docs_tokens_encoded = [3, 4, 5], PAD_TOKEN = 9\<rparr> 2 None None 0 = Inr (self, h, g)
   \<and> (\<exists>ys h'. SmartDataLoader_iter self h = (ys, h', None) \<and> int (length ys) = 1)
   \<and> SmartDataLoader_len self = Inr 1"
proof -
  have seed: "np_seed demo_random 0 \<noteq> None" by (simp add: demo_random_def)
  have d: "int 3 div 2 = (1::int)" by simp
  have "\<exists>self h g.
     SmartDataLoader_init demo_random ([[1, 2], [1, 2, 3], [1], [4, 5], [4], [4, 5, 6]], 7)
       \<lparr>docs_tokens_encoded = [0, 1, 2], PAD_TOKEN = 0\<rparr>
       \<lparr>docs_tokens_encoded = [3, 4, 5], PAD_TOKEN = 9\<rparr> 2 None None 0 = Inr (self, h, g)
   \<and> SmartDataLoader_iter self h =
       materialize self h
         (full_batches (nat 2)
            (zip (docs_tokens_encoded (input_vocab self))
                 (docs_tokens_encoded (output_vocab self)))) []
   \<and> length (zip (docs_tokens_encoded (input_vocab self))
                  (docs_tokens_encoded (output_vocab self))) = 3
   \<and> concat (full_batches (nat 2)
            (zip (docs_tokens_encoded (input_vocab self))
                 (docs_tokens_encoded (output_vocab self)))) =
       take (3 div nat 2 * nat 2)
            (zip (docs_tokens_encoded (input_vocab self))
                 (docs_tokens_encoded (output_vocab self)))
   \<and> (\<exists>ys h'. SmartDataLoader_iter self h = (ys, h', None) \<and> int (length ys) = 1)
   \<and> SmartDataLoader_len self = Inr 1"
    by (rule nonempty_corpus_yields_full_batches_only[OF demo_random_permutes seed,
          of _ 3 None None _ _ 2, unfolded d]) simp_all
  then show ?thesis by blast
qed

subsection \<open>Unequal counts\<close>

text \<open>
  Claim C8 says that with unequal counts construction and iteration succeed and the
  shorter count is what is batched.  With two input sentences and one output sentence,
  \<open>zip\<close> keeps one pair but \<open>n_sentences\<close> is \<open>2\<close>: iteration yields one batch and raises
  IndexError at index \<open>1\<close>.
\<close>

theorem longer_input_side_raises:
  "SmartDataLoader_init demo_random ([[1], [2], [3]], 0)
     \<lparr>docs_tokens_encoded = [0, 1], PAD_TOKEN = 0\<rparr> \<lparr>docs_tokens_encoded = [2], PAD_TOKEN = 0\<rparr>
     1 None None 0 =
   Inr (\<lparr>input_vocab = \<lparr>docs_tokens_encoded = [3], PAD_TOKEN = 0\<rparr>,
         output_vocab = \<lparr>docs_tokens_encoded = [5], PAD_TOKEN = 0\<rparr>,
         batch_size = 1, input_docs_tokens_encoded = None,
         output_docs_tokens_encoded = None, random_seed = 0,
         n_sentences = 2, self_PAD_TOKEN = 0\<rparr>,
        [[1], [2], [3], [1], [2], [3]], 1)
   \<and> SmartDataLoader_iter
        \<lparr>input_vocab = \<lparr>docs_tokens_encoded = [3], PAD_TOKEN = 0\<rparr>,
         output_vocab = \<lparr>docs_tokens_encoded = [5], PAD_TOKEN = 0\<rparr>,
         batch_size = 1, input_docs_tokens_encoded = None,
         output_docs_tokens_encoded = None, random_seed = 0,
         n_sentences = 2, self_PAD_TOKEN = 0\<rparr>
        [[1], [2], [3], [1], [2], [3]] =
      ([(\<lparr>shape = [1, 1], entries = [[1]]\<rparr>, \<lparr>shape = [1, 1], entries = [[3]]\<rparr>)],
       [[1], [2], [3], [1], [2], [3]], Some IndexError)"
  by (simp add: SmartDataLoader_init_def deepcopy_def shuffle_vocab_data_def demo_random_def
      SmartDataLoader_iter_def build_tensor_def np_array_def
      np_transpose_def torch_tensor_def upt_rec)

text \<open>
  Claim C8 as amended: when the input side is the shorter one (\<open>1 \<le> N_in < N_out\<close>, no
  override lists, a seed numpy accepts), construction succeeds, the shuffled corpus and
  \<open>n_sentences\<close> have \<open>min(N_in, N_out)\<close> pairs, and iteration ends without an exception
  after \<open>min(N_in, N_out) // batch_size\<close> batches (none for a batch size \<open>\<le> 0\<close>).
\<close>

theorem shorter_input_side_truncates:
  assumes perm: "\<forall>g xs. mset (fst (np_shuffle np g xs)) = mset xs"
    and seed: "np_seed np seed \<noteq> None"
    and n_in: "length (docs_tokens_encoded in_vocab) = N_in"
    and n_out: "length (docs_tokens_encoded out_vocab) = N_out"
    and lt: "0 < N_in" "N_in < N_out"
  shows "\<exists>self h g.
           SmartDataLoader_init np w in_vocab out_vocab bsize None None seed = Inr (self, h, g)
         \<and> n_sentences self = min N_in N_out
         \<and> length (docs_tokens_encoded (input_vocab self)) = min N_in N_out
         \<and> length (docs_tokens_encoded (output_vocab self)) = min N_in N_out
         \<and> (\<exists>ys h'. SmartDataLoader_iter self h = (ys, h', None)
                \<and> int (length ys) = (if 1 \<le> bsize then int (min N_in N_out) div bsize else 0))"
proof -
  have ne: "docs_tokens_encoded in_vocab \<noteq> []" "docs_tokens_encoded out_vocab \<noteq> []"
    using n_in n_out lt by auto
  from init_succeeds[OF perm seed ne, of w bsize] obtain self h g where
    init: "SmartDataLoader_init np w in_vocab out_vocab bsize None None seed = Inr (self, h, g)"
    by (metis prod_cases3)
  let ?ins = "docs_tokens_encoded (input_vocab self)"
  let ?outs = "docs_tokens_encoded (output_vocab self)"
  note i = init_no_override[OF perm init]
  have m: "min N_in N_out = N_in" using lt by simp
  have n: "n_sentences self = N_in" "length ?ins = N_in" "length ?outs = N_in"
    using i n_in n_out lt by simp_all
  have le: "n_sentences self \<le> length ?ins" "n_sentences self \<le> length ?outs"
    using n by simp_all
  have v: "list_all (\<lambda>r. r < length h) ?ins" "list_all (\<lambda>r. r < length h) ?outs"
      "set ?ins \<inter> set ?outs = {}"
    using i by simp_all
  have it: "\<exists>ys h'. SmartDataLoader_iter self h = (ys, h', None)
      \<and> int (length ys) = (if 1 \<le> bsize then int N_in div bsize else 0)"
  proof (cases "1 \<le> bsize")
    case True
    then have b: "batch_size self = int (nat bsize)" "0 < nat bsize" using i by simp_all
    from iter_succeeds[OF b le v] obtain ys h' where
      "SmartDataLoader_iter self h = (ys, h', None)" "length ys = N_in div nat bsize"
      using n by auto
    moreover have "int (N_in div nat bsize) = int N_in div bsize"
      using True by (simp add: zdiv_int)
    ultimately show ?thesis using True by auto
  next
    case False
    then have b: "batch_size self \<le> 0" using i by simp
    have r: "\<forall>i \<in> set [0..<n_sentences self]. i < length ?ins \<and> i < length ?outs"
      using le by auto
    have "SmartDataLoader_iter self h = ([], h, None)"
      unfolding SmartDataLoader_iter_def
      by (rule iter_loop_nonpositive_ok[OF b _ r]) simp
    then show ?thesis using False by simp
  qed
  from init n it show ?thesis unfolding m by blast
qed

theorem shorter_input_side_truncates_witness:
  "\<exists>self h g.
     SmartDataLoader_init demo_random ([[1], [2], [3]], 0)
       \<lparr>docs_tokens_encoded = [0], PAD_TOKEN = 0\<rparr> \<lparr>docs_tokens_encoded = [1, 2], PAD_TOKEN = 0\<rparr>
       1 None None 0 = Inr (self, h, g)
     \<and> n_sentences self = 1
     \<and> length (docs_tokens_encoded (input_vocab self)) = 1
     \<and> length (docs_tokens_encoded (output_vocab self)) = 1
     \<and> (\<exists>ys h'. SmartDataLoader_iter self h = (ys, h', None) \<and> int (length ys) = 1)"
proof -
  have seed: "np_seed demo_random 0 \<noteq> None" by (simp add: demo_random_def)
  from shorter_input_side_truncates[OF demo_random_permutes seed, of
      "\<lparr>docs_tokens_encoded = [0], PAD_TOKEN = 0\<rparr>" 1
      "\<lparr>docs_tokens_encoded = [1, 2], PAD_TOKEN = 0\<rparr>" 2 "([[1], [2], [3]], 0)" 1]
  show ?thesis by simp
qed

subsection \<open>Tensor shapes\<close>

text \<open>
  Claim C3 says that the first dimension of every emitted tensor is the length of the
  longest sequence of its batch before padding.  \<open>deepcopy\<close> keeps a list that occurs twice
  in a vocabulary one list, and padding is in place: in the input vocabulary
  \<open>[a, b, a, c]\<close> with \<open>a = [1]\<close>, \<open>b = [1, 2, 3]\<close>, \<open>c = [1, 2]\<close> and batch size \<open>2\<close>, the
  first batch pads \<open>a\<close> to length \<open>3\<close>, and the second batch, whose input sequences
  \<open>c\<close> and \<open>a\<close> had lengths \<open>2\<close> and \<open>1\<close> when iteration started, has an input tensor of
  shape \<open>(3, 2)\<close>.
\<close>

theorem shared_list_enters_batch_padded:
  "SmartDataLoader_init demo_random ([[1], [1, 2, 3], [1, 2], [4], [5], [6], [7]], 0)
     \<lparr>docs_tokens_encoded = [0, 1, 0, 2], PAD_TOKEN = 0\<rparr>
     \<lparr>docs_tokens_encoded = [3, 4, 5, 6], PAD_TOKEN = 0\<rparr>
     2 None None 0 =
   Inr (\<lparr>input_vocab = \<lparr>docs_tokens_encoded = [8, 7, 9, 7], PAD_TOKEN = 0\<rparr>,
         output_vocab = \<lparr>docs_tokens_encoded = [11, 12, 13, 10], PAD_TOKEN = 0\<rparr>,
         batch_size = 2, input_docs_tokens_encoded = None,
         output_docs_tokens_encoded = None, random_seed = 0,
         n_sentences = 4, self_PAD_TOKEN = 0\<rparr>,
        [[1], [1, 2, 3], [1, 2], [4], [5], [6], [7],
         [1], [1, 2, 3], [1, 2], [4], [5], [6], [7]], 1)
   \<and> SmartDataLoader_iter
        \<lparr>input_vocab = \<lparr>docs_tokens_encoded = [8, 7, 9, 7], PAD_TOKEN = 0\<rparr>,
         output_vocab = \<lparr>docs_tokens_encoded = [11, 12, 13, 10], PAD_TOKEN = 0\<rparr>,
         batch_size = 2, input_docs_tokens_encoded = None,
         output_docs_tokens_encoded = None, random_seed = 0,
         n_sentences = 4, self_PAD_TOKEN = 0\<rparr>
        [[1], [1, 2, 3], [1, 2], [4], [5], [6], [7],
         [1], [1, 2, 3], [1, 2], [4], [5], [6], [7]] =
      ([(\<lparr>shape = [3, 2], entries = [[1, 0], [2, 0], [3, 1]]\<rparr>,
         \<lparr>shape = [1, 2], entries = [[5, 6]]\<rparr>),
        (\<lparr>shape = [3, 2], entries = [[1, 0], [0, 0], [2, 1]]\<rparr>,
         \<lparr>shape = [1, 2], entries = [[7, 4]]\<rparr>)],
       [[1], [1, 2, 3], [1, 2], [4], [5], [6], [7],
        [0, 0, 1], [1, 2, 3], [1, 0, 2], [4], [5], [6], [7]], None)
   \<and> map (\<lambda>r. length (([[1], [1, 2, 3], [1, 2], [4], [5], [6], [7],
         [1], [1, 2, 3], [1, 2], [4], [5], [6], [7]] :: heap) ! r)) [9, 7] = [2, 1]"
  by (simp add: SmartDataLoader_init_def deepcopy_def shuffle_vocab_data_def demo_random_def
      SmartDataLoader_iter_def build_tensor_def np_array_def list_insert_def
      np_transpose_def torch_tensor_def upt_rec)

text \<open>
  Claim C3 as amended.  Let every sequence of the corpus be a list object of its own (no
  list twice in a vocabulary; override lists, when given, pairwise different lists of the
  caller's heap).  Then every tensor that iteration of the constructed loader yields is
  two-dimensional and time-major: the \<open>k\<close>-th batch holds the sentences \<open>k * batch_size\<close> to
  \<open>k * batch_size + batch_size - 1\<close> of the shuffled corpus, its input tensor has shape
  (longest input sequence of the batch, \<open>batch_size\<close>) and its output tensor has shape
  (longest output sequence of the batch, \<open>batch_size\<close>), the lengths being those in the
  heap when iteration starts.  This holds for the batches yielded before an IndexError
  as well.
\<close>

theorem emitted_tensor_shapes_of_own_lists:
  assumes perm: "\<forall>g xs. mset (fst (np_shuffle np g xs)) = mset xs"
    and init: "SmartDataLoader_init np w in_vocab out_vocab bsize in_docs out_docs seed =
                 Inr (self, h, g)"
    and own:
      "if in_docs \<noteq> None \<and> out_docs \<noteq> None
       then distinct (the in_docs @ the out_docs)
          \<and> list_all (\<lambda>r. r < length (fst w)) (the in_docs @ the out_docs)
       else distinct (docs_tokens_encoded in_vocab) \<and> distinct (docs_tokens_encoded out_vocab)"
    and it: "SmartDataLoader_iter self h = (ys, h', e)"
    and k: "k < length ys"
  shows "batch_size self = bsize \<and> 1 \<le> bsize
       \<and> shape (fst (ys ! k)) =
           [Max ((\<lambda>i. length (h ! (docs_tokens_encoded (input_vocab self) ! i)))
                   ` {k * nat bsize ..< k * nat bsize + nat bsize}), nat bsize]
       \<and> shape (snd (ys ! k)) =
           [Max ((\<lambda>i. length (h ! (docs_tokens_encoded (output_vocab self) ! i)))
                   ` {k * nat bsize ..< k * nat bsize + nat bsize}), nat bsize]"
proof -
  let ?ins = "docs_tokens_encoded (input_vocab self)"
  let ?outs = "docs_tokens_encoded (output_vocab self)"
  note o = init_own_lists[OF perm init own]
  have b: "batch_size self = bsize" using o by simp
  have pos: "1 \<le> bsize"
  proof (rule ccontr)
    assume "\<not> 1 \<le> bsize"
    then have "batch_size self \<le> 0" using b by simp
    from iter_loop_nonpositive[OF this, of 0 "[0..<n_sentences self]" "[]" h "[]"]
    have "fst (SmartDataLoader_iter self h) = []"
      by (auto simp: SmartDataLoader_iter_def)
    with it k show False by simp
  qed
  let ?n = "min (n_sentences self) (min (length ?ins) (length ?outs))"
  let ?self = "self\<lparr>n_sentences := ?n\<rparr>"
  obtain ys' h'' e' where it': "SmartDataLoader_iter ?self h = (ys', h'', e')"
    by (cases "SmartDataLoader_iter ?self h")
  have ys: "ys' = ys" using iter_truncated[of self h] it it' by simp
  have bs: "batch_size ?self = int (nat bsize)" "0 < nat bsize" using b pos by simp_all
  have n: "n_sentences ?self \<le> length (docs_tokens_encoded (input_vocab ?self))"
      "n_sentences ?self \<le> length (docs_tokens_encoded (output_vocab ?self))"
    by simp_all
  have v: "list_all (\<lambda>r. r < length h) (docs_tokens_encoded (input_vocab ?self))"
      "list_all (\<lambda>r. r < length h) (docs_tokens_encoded (output_vocab ?self))"
    using o by simp_all
  have d: "distinct (docs_tokens_encoded (input_vocab ?self) @
                     docs_tokens_encoded (output_vocab ?self))"
    using o by simp
  from batch_shapes_loader[OF bs n v d it' k[folded ys]]
  have "shape (fst (ys ! k)) =
           [Max ((\<lambda>i. length (h ! (?ins ! i))) ` {k * nat bsize ..< k * nat bsize + nat bsize}),
            nat bsize]
       \<and> shape (snd (ys ! k)) =
           [Max ((\<lambda>i. length (h ! (?outs ! i))) ` {k * nat bsize ..< k * nat bsize + nat bsize}),
            nat bsize]"
    unfolding ys by simp
  with b pos show ?thesis by simp
qed

theorem emitted_tensor_shapes_of_own_lists_witness:
  "SmartDataLoader_init demo_random ([[1, 2], [1, 2, 3], [1], [4, 5], [4], [4, 5, 6]], 7)
     \<lparr>docs_tokens_encoded = [0, 1, 2], PAD_TOKEN = 0\<rparr>
     \<lparr>docs_tokens_encoded = [3, 4, 5], PAD_TOKEN = 9\<rparr> 2 None None 0 =
   Inr (\<lparr>input_vocab = \<lparr>docs_tokens_encoded = [7, 8, 6], PAD_TOKEN = 0\<rparr>,
         output_vocab = \<lparr>docs_tokens_encoded = [10, 11, 9], PAD_TOKEN = 9\<rparr>,
         batch_size = 2, input_docs_tokens_encoded = None,
         output_docs_tokens_encoded = None, random_seed = 0,
         n_sentences = 3, self_PAD_TOKEN = 0\<rparr>,
        ([[1, 2], [1, 2, 3], [1], [4, 5], [4], [4, 5, 6],
         [1, 2], [1, 2, 3], [1], [4, 5], [4], [4, 5, 6]] :: heap), 1)
   \<and> SmartDataLoader_iter \<lparr>input_vocab = \<lparr>docs_tokens_encoded = [7, 8, 6], PAD_TOKEN = 0\<rparr>,
         output_vocab = \<lparr>docs_tokens_encoded = [10, 11, 9], PAD_TOKEN = 9\<rparr>,
         batch_size = 2, input_docs_tokens_encoded = None,
         output_docs_tokens_encoded = None, random_seed = 0,
         n_sentences = 3, self_PAD_TOKEN = 0\<rparr> ([[1, 2], [1, 2, 3], [1], [4, 5], [4], [4, 5, 6],
         [1, 2], [1, 2, 3], [1], [4, 5], [4], [4, 5, 6]] :: heap) =
     ([(\<lparr>shape = [3, 2], entries = [[1, 0], [2, 0], [3, 1]]\<rparr>,
        \<lparr>shape = [3, 2], entries = [[0, 4], [0, 5], [4, 6]]\<rparr>)],
      [[1, 2], [1, 2, 3], [1], [4, 5], [4], [4, 5, 6],
       [1, 2], [1, 2, 3], [0, 0, 1], [4, 5], [0, 0, 4], [4, 5, 6]], None)
   \<and> shape (fst ([(\<lparr>shape = [3, 2], entries = [[1, 0], [2, 0], [3, 1]]\<rparr>,
        \<lparr>shape = [3, 2], entries = [[0, 4], [0, 5], [4, 6]]\<rparr>)] ! 0)) =
       [Max ((\<lambda>i. length (([[1, 2], [1, 2, 3], [1], [4, 5], [4], [4, 5, 6],
         [1, 2], [1, 2, 3], [1], [4, 5], [4], [4, 5, 6]] :: heap) ! ([7, 8, 6] ! i))) ` {0 * nat 2 ..< 0 * nat 2 + nat 2}), nat 2]
   \<and> shape (snd ([(\<lparr>shape = [3, 2], entries = [[1, 0], [2, 0], [3, 1]]\<rparr>,
        \<lparr>shape = [3, 2], entries = [[0, 4], [0, 5], [4, 6]]\<rparr>)] ! 0)) =
       [Max ((\<lambda>i. length (([[1, 2], [1, 2, 3], [1], [4, 5], [4], [4, 5, 6],
         [1, 2], [1, 2, 3], [1], [4, 5], [4], [4, 5, 6]] :: heap) ! ([10, 11, 9] ! i))) ` {0 * nat 2 ..< 0 * nat 2 + nat 2}), nat 2]"
proof -
  have init: "SmartDataLoader_init demo_random ([[1, 2], [1, 2, 3], [1], [4, 5], [4], [4, 5, 6]], 7)
     \<lparr>docs_tokens_encoded = [0, 1, 2], PAD_TOKEN = 0\<rparr>
     \<lparr>docs_tokens_encoded = [3, 4, 5], PAD_TOKEN = 9\<rparr> 2 None None 0 =
   Inr (\<lparr>input_vocab = \<lparr>docs_tokens_encoded = [7, 8, 6], PAD_TOKEN = 0\<rparr>,
         output_vocab = \<lparr>docs_tokens_encoded = [10, 11, 9], PAD_TOKEN = 9\<rparr>,
         batch_size = 2, input_docs_tokens_encoded = None,
         output_docs_tokens_encoded = None, random_seed = 0,
         n_sentences = 3, self_PAD_TOKEN = 0\<rparr>,
        ([[1, 2], [1, 2, 3], [1], [4, 5], [4], [4, 5, 6],
         [1, 2], [1, 2, 3], [1], [4, 5], [4], [4, 5, 6]] :: heap), 1)"
    by (simp add: SmartDataLoader_init_def deepcopy_def shuffle_vocab_data_def demo_random_def)
  have it: "SmartDataLoader_iter \<lparr>input_vocab = \<lparr>docs_tokens_encoded = [7, 8, 6], PAD_TOKEN = 0\<rparr>,
         output_vocab = \<lparr>docs_tokens_encoded = [10, 11, 9], PAD_TOKEN = 9\<rparr>,
         batch_size = 2, input_docs_tokens_encoded = None,
         output_docs_tokens_encoded = None, random_seed = 0,
         n_sentences = 3, self_PAD_TOKEN = 0\<rparr> ([[1, 2], [1, 2, 3], [1], [4, 5], [4], [4, 5, 6],
         [1, 2], [1, 2, 3], [1], [4, 5], [4], [4, 5, 6]] :: heap) =
     ([(\<lparr>shape = [3, 2], entries = [[1, 0], [2, 0], [3, 1]]\<rparr>,
        \<lparr>shape = [3, 2], entries = [[0, 4], [0, 5], [4, 6]]\<rparr>)],
      [[1, 2], [1, 2, 3], [1], [4, 5], [4], [4, 5, 6],
       [1, 2], [1, 2, 3], [0, 0, 1], [4, 5], [0, 0, 4], [4, 5, 6]], None)"
    by (simp add: SmartDataLoader_iter_def build_tensor_def np_array_def list_insert_def
        np_transpose_def torch_tensor_def upt_rec)
  have t: "batch_size \<lparr>input_vocab = \<lparr>docs_tokens_encoded = [7, 8, 6], PAD_TOKEN = 0\<rparr>,
         output_vocab = \<lparr>docs_tokens_encoded = [10, 11, 9], PAD_TOKEN = 9\<rparr>,
         batch_size = 2, input_docs_tokens_encoded = None,
         output_docs_tokens_encoded = None, random_seed = 0,
         n_sentences = 3, self_PAD_TOKEN = 0\<rparr> = 2 \<and> 1 \<le> (2::int)
     \<and> shape (fst ([(\<lparr>shape = [3, 2], entries = [[1, 0], [2, 0], [3, 1]]\<rparr>,
        \<lparr>shape = [3, 2], entries = [[0, 4], [0, 5], [4, 6]]\<rparr>)] ! 0)) =
       [Max ((\<lambda>i. length (([[1, 2], [1, 2, 3], [1], [4, 5], [4], [4, 5, 6],
         [1, 2], [1, 2, 3], [1], [4, 5], [4], [4, 5, 6]] :: heap) ! (docs_tokens_encoded (input_vocab \<lparr>input_vocab = \<lparr>docs_tokens_encoded = [7, 8, 6], PAD_TOKEN = 0\<rparr>,
         output_vocab = \<lparr>docs_tokens_encoded = [10, 11, 9], PAD_TOKEN = 9\<rparr>,
         batch_size = 2, input_docs_tokens_encoded = None,
         output_docs_tokens_encoded = None, random_seed = 0,
         n_sentences = 3, self_PAD_TOKEN = 0\<rparr>) ! i)))
               ` {0 * nat 2 ..< 0 * nat 2 + nat 2}), nat 2]
     \<and> shape (snd ([(\<lparr>shape = [3, 2], entries = [[1, 0], [2, 0], [3, 1]]\<rparr>,
        \<lparr>shape = [3, 2], entries = [[0, 4], [0, 5], [4, 6]]\<rparr>)] ! 0)) =
       [Max ((\<lambda>i. length (([[1, 2], [1, 2, 3], [1], [4, 5], [4], [4, 5, 6],
         [1, 2], [1, 2, 3], [1], [4, 5], [4], [4, 5, 6]] :: heap) ! (docs_tokens_encoded (output_vocab \<lparr>input_vocab = \<lparr>docs_tokens_encoded = [7, 8, 6], PAD_TOKEN = 0\<rparr>,
         output_vocab = \<lparr>docs_tokens_encoded = [10, 11, 9], PAD_TOKEN = 9\<rparr>,
         batch_size = 2, input_docs_tokens_encoded = None,
         output_docs_tokens_encoded = None, random_seed = 0,
         n_sentences = 3, self_PAD_TOKEN = 0\<rparr>) ! i)))
               ` {0 * nat 2 ..< 0 * nat 2 + nat 2}), nat 2]"
    by (rule emitted_tensor_shapes_of_own_lists[OF demo_random_permutes init _ it]) simp_all
  show ?thesis using init it t by simp
qed

subsection \<open>One pad token for both sides\<close>

text \<open>
  Claim C10.  A constructed loader pads with the input vocabulary's pad token, on both
  sides.  For every batch it builds (a non-empty list of pairs of lists present in the
  heap, no list being an input and an output at once), the column of the input tensor and
  the column of the output tensor for the \<open>j\<close>-th pair are the input sequence and the
  output sequence with the input vocabulary's pad token in the padded positions (before
  the last token, see C1).  The output vocabulary's pad token is never used: constructing
  with another value for it gives the same loader up to that field, the same heap, and the
  same batches on iteration.
\<close>

theorem both_sides_padded_with_input_pad_token:
  assumes init: "SmartDataLoader_init np w in_vocab out_vocab bsize in_docs out_docs seed =
                   Inr (self, h, g)"
    and ne: "doc_pairs \<noteq> []"
    and valid: "list_all (\<lambda>p. fst p < length hb \<and> snd p < length hb) doc_pairs"
    and disj: "set (map fst doc_pairs) \<inter> set (map snd doc_pairs) = {}"
    and j: "j < length doc_pairs"
  shows "self_PAD_TOKEN self = PAD_TOKEN in_vocab
       \<and> (\<exists>hb' t_in t_out.
             build_tensor self hb doc_pairs = (hb', Inr (t_in, t_out))
           \<and> map (\<lambda>row. row ! j) (entries t_in) =
               (if hb ! fst (doc_pairs ! j) = []
                then replicate (Max ((\<lambda>p. length (hb ! fst p)) ` set doc_pairs))
                       (PAD_TOKEN in_vocab)
                else butlast (hb ! fst (doc_pairs ! j)) @
                     replicate (Max ((\<lambda>p. length (hb ! fst p)) ` set doc_pairs)
                                  - length (hb ! fst (doc_pairs ! j)))
                       (PAD_TOKEN in_vocab) @
                     [last (hb ! fst (doc_pairs ! j))])
           \<and> map (\<lambda>row. row ! j) (entries t_out) =
               (if hb ! snd (doc_pairs ! j) = []
                then replicate (Max ((\<lambda>p. length (hb ! snd p)) ` set doc_pairs))
                       (PAD_TOKEN in_vocab)
                else butlast (hb ! snd (doc_pairs ! j)) @
                     replicate (Max ((\<lambda>p. length (hb ! snd p)) ` set doc_pairs)
                                  - length (hb ! snd (doc_pairs ! j)))
                       (PAD_TOKEN in_vocab) @
                     [last (hb ! snd (doc_pairs ! j))]))
       \<and> SmartDataLoader_init np w in_vocab (out_vocab\<lparr>PAD_TOKEN := p\<rparr>) bsize in_docs out_docs
             seed =
           Inr (self\<lparr>output_vocab := (output_vocab self)\<lparr>PAD_TOKEN := p\<rparr>\<rparr>, h, g)
       \<and> SmartDataLoader_iter (self\<lparr>output_vocab := (output_vocab self)\<lparr>PAD_TOKEN := p\<rparr>\<rparr>) h =
           SmartDataLoader_iter self h"
proof -
  let ?mi = "Max ((\<lambda>p. length (hb ! fst p)) ` set doc_pairs)"
  let ?mo = "Max ((\<lambda>p. length (hb ! snd p)) ` set doc_pairs)"
  let ?xi = "hb ! fst (doc_pairs ! j)"
  let ?xo = "hb ! snd (doc_pairs ! j)"
  have pad: "self_PAD_TOKEN self = PAD_TOKEN in_vocab"
    using init by (auto simp: SmartDataLoader_init_def Let_def split: prod.splits sum.splits)
  let ?t_in = "batch_tensor ?mi (PAD_TOKEN in_vocab) (map (\<lambda>p. hb ! fst p) doc_pairs)"
  let ?t_out = "batch_tensor ?mo (PAD_TOKEN in_vocab) (map (\<lambda>p. hb ! snd p) doc_pairs)"
  from build_tensor_eq[OF ne valid disj, of self] obtain hb' where
    bt: "build_tensor self hb doc_pairs = (hb', Inr (?t_in, ?t_out))"
    unfolding pad by blast
  have mem: "doc_pairs ! j \<in> set doc_pairs" using j by simp
  then have li: "length ?xi \<le> ?mi" and lo: "length ?xo \<le> ?mo" by simp_all
  have "map (\<lambda>row. row ! j) (entries ?t_in) = padded ?mi (PAD_TOKEN in_vocab) ?xi"
    using batch_tensor_column[of j "map (\<lambda>p. hb ! fst p) doc_pairs" ?mi "PAD_TOKEN in_vocab"]
      j li by simp
  then have coli: "map (\<lambda>row. row ! j) (entries ?t_in) =
      (if ?xi = [] then replicate ?mi (PAD_TOKEN in_vocab)
       else butlast ?xi @ replicate (?mi - length ?xi) (PAD_TOKEN in_vocab) @ [last ?xi])"
    by (simp only: padded_closed_form)
  have "map (\<lambda>row. row ! j) (entries ?t_out) = padded ?mo (PAD_TOKEN in_vocab) ?xo"
    using batch_tensor_column[of j "map (\<lambda>p. hb ! snd p) doc_pairs" ?mo "PAD_TOKEN in_vocab"]
      j lo by simp
  then have colo: "map (\<lambda>row. row ! j) (entries ?t_out) =
      (if ?xo = [] then replicate ?mo (PAD_TOKEN in_vocab)
       else butlast ?xo @ replicate (?mo - length ?xo) (PAD_TOKEN in_vocab) @ [last ?xo])"
    by (simp only: padded_closed_form)
  have it: "SmartDataLoader_iter (self\<lparr>output_vocab := (output_vocab self)\<lparr>PAD_TOKEN := p\<rparr>\<rparr>) h =
      SmartDataLoader_iter self h"
    by (simp add: SmartDataLoader_iter_def iter_loop_output_pad)
  from bt coli colo have "\<exists>hb' t_in t_out.
             build_tensor self hb doc_pairs = (hb', Inr (t_in, t_out))
           \<and> map (\<lambda>row. row ! j) (entries t_in) =
               (if ?xi = [] then replicate ?mi (PAD_TOKEN in_vocab)
                else butlast ?xi @ replicate (?mi - length ?xi) (PAD_TOKEN in_vocab) @ [last ?xi])
           \<and> map (\<lambda>row. row ! j) (entries t_out) =
               (if ?xo = [] then replicate ?mo (PAD_TOKEN in_vocab)
                else butlast ?xo @ replicate (?mo - length ?xo) (PAD_TOKEN in_vocab) @ [last ?xo])"
    by blast
  with pad init_output_pad[OF init, of p] it show ?thesis by blast
qed

theorem both_sides_padded_with_input_pad_token_witness:
  "SmartDataLoader_init demo_random ([[1, 2], [1, 2, 3], [1], [4, 5], [4], [4, 5, 6]], 7)
     \<lparr>docs_tokens_encoded = [0, 1, 2], PAD_TOKEN = 0\<rparr>
     \<lparr>docs_tokens_encoded = [3, 4, 5], PAD_TOKEN = 9\<rparr> 2 None None 0 =
   Inr (\<lparr>input_vocab = \<lparr>docs_tokens_encoded = [7, 8, 6], PAD_TOKEN = 0\<rparr>,
         output_vocab = \<lparr>docs_tokens_encoded = [10, 11, 9], PAD_TOKEN = 9\<rparr>,
         batch_size = 2, input_docs_tokens_encoded = None,
         output_docs_tokens_encoded = None, random_seed = 0,
         n_sentences = 3, self_PAD_TOKEN = 0\<rparr>,
        [[1, 2], [1, 2, 3], [1], [4, 5], [4], [4, 5, 6],
         [1, 2], [1, 2, 3], [1], [4, 5], [4], [4, 5, 6]], 1)
   \<and> (\<exists>hb' t_in t_out.
         build_tensor
           \<lparr>input_vocab = \<lparr>docs_tokens_encoded = [7, 8, 6], PAD_TOKEN = 0\<rparr>,
            output_vocab = \<lparr>docs_tokens_encoded = [10, 11, 9], PAD_TOKEN = 9\<rparr>,
            batch_size = 2, input_docs_tokens_encoded = None,
            output_docs_tokens_encoded = None, random_seed = 0,
            n_sentences = 3, self_PAD_TOKEN = 0\<rparr>
           [[1, 2], [1, 2, 3], [1], [4, 5], [4], [4, 5, 6],
            [1, 2], [1, 2, 3], [1], [4, 5], [4], [4, 5, 6]]
           [(7, 11), (8, 10)] = (hb', Inr (t_in, t_out))
       \<and> map (\<lambda>row. row ! 1) (entries t_in) = [0, 0, 1]
       \<and> map (\<lambda>row. row ! 1) (entries t_out) = [0, 0, 4])"
proof -
  have init: "SmartDataLoader_init demo_random
       ([[1, 2], [1, 2, 3], [1], [4, 5], [4], [4, 5, 6]], 7)
     \<lparr>docs_tokens_encoded = [0, 1, 2], PAD_TOKEN = 0\<rparr>
     \<lparr>docs_tokens_encoded = [3, 4, 5], PAD_TOKEN = 9\<rparr> 2 None None 0 =
   Inr (\<lparr>input_vocab = \<lparr>docs_tokens_encoded = [7, 8, 6], PAD_TOKEN = 0\<rparr>,
         output_vocab = \<lparr>docs_tokens_encoded = [10, 11, 9], PAD_TOKEN = 9\<rparr>,
         batch_size = 2, input_docs_tokens_encoded = None,
         output_docs_tokens_encoded = None, random_seed = 0,
         n_sentences = 3, self_PAD_TOKEN = 0\<rparr>,
        [[1, 2], [1, 2, 3], [1], [4, 5], [4], [4, 5, 6],
         [1, 2], [1, 2, 3], [1], [4, 5], [4], [4, 5, 6]], 1)"
    by (simp add: SmartDataLoader_init_def deepcopy_def shuffle_vocab_data_def demo_random_def)
  have mi: "Max ((\<lambda>p. length (([[1, 2], [1, 2, 3], [1], [4, 5], [4], [4, 5, 6],
         [1, 2], [1, 2, 3], [1], [4, 5], [4], [4, 5, 6]] :: heap) ! fst p))
       ` set [(7, 11), (8, 10)]) = 3"
    by simp
  have mo: "Max ((\<lambda>p. length (([[1, 2], [1, 2, 3], [1], [4, 5], [4], [4, 5, 6],
         [1, 2], [1, 2, 3], [1], [4, 5], [4], [4, 5, 6]] :: heap) ! snd p))
       ` set [(7, 11), (8, 10)]) = 3"
    by simp
  note t = both_sides_padded_with_input_pad_token[OF init, of "[(7, 11), (8, 10)]"
      "[[1, 2], [1, 2, 3], [1], [4, 5], [4], [4, 5, 6],
         [1, 2], [1, 2, 3], [1], [4, 5], [4], [4, 5, 6]]" 1 5, unfolded mi mo]
  have "\<exists>hb' t_in t_out.
         build_tensor
           \<lparr>input_vocab = \<lparr>docs_tokens_encoded = [7, 8, 6], PAD_TOKEN = 0\<rparr>,
            output_vocab = \<lparr>docs_tokens_encoded = [10, 11, 9], PAD_TOKEN = 9\<rparr>,
            batch_size = 2, input_docs_tokens_encoded = None,
            output_docs_tokens_encoded = None, random_seed = 0,
            n_sentences = 3, self_PAD_TOKEN = 0\<rparr>
           [[1, 2], [1, 2, 3], [1], [4, 5], [4], [4, 5, 6],
            [1, 2], [1, 2, 3], [1], [4, 5], [4], [4, 5, 6]]
           [(7, 11), (8, 10)] = (hb', Inr (t_in, t_out))
       \<and> map (\<lambda>row. row ! 1) (entries t_in) = [0, 0, 1]
       \<and> map (\<lambda>row. row ! 1) (entries t_out) = [0, 0, 4]"
    using t by (simp add: numeral_3_eq_3)
  with init show ?thesis by blast
qed

end
